theory Spec2Isabelle
  imports Main "HOL-Library.Sublist"
begin

section \<open>JavaScript values met by the engine\<close>

text \<open>
  The engine (\<^verbatim>\<open>src/api.ts\<close>, class \<^verbatim>\<open>Instagram\<close>) reads the bodies of
  intercepted responses as parsed JSON. A parsed body is a \<open>json\<close> value; a JavaScript
  value that may also be \<^verbatim>\<open>undefined\<close> is a \<open>jsval\<close>, with \<open>None\<close> for
  \<^verbatim>\<open>undefined\<close>. Numbers are integers here (floating point is outside the
  embedding); an object is the association list of its own members.
\<close>

datatype json =
    JNull
  | JBool bool
  | JNum int
  | JStr string
  | JArr "json list"
  | JObj "(string \<times> json) list"

type_synonym jsval = "json option"

text \<open>JavaScript truthiness, as used by \<^verbatim>\<open>&&\<close>, \<^verbatim>\<open>!\<close> and \<^verbatim>\<open>while (post)\<close>.\<close>

fun truthy :: "jsval \<Rightarrow> bool" where
  "truthy None = False"
| "truthy (Some JNull) = False"
| "truthy (Some (JBool b)) = b"
| "truthy (Some (JNum n)) = (n \<noteq> 0)"
| "truthy (Some (JStr s)) = (s \<noteq> [])"
| "truthy (Some (JArr xs)) = True"
| "truthy (Some (JObj kvs)) = True"

text \<open>
  A property read \<^verbatim>\<open>v[k]\<close> on a value that is neither \<^verbatim>\<open>null\<close> nor
  \<^verbatim>\<open>undefined\<close>. Only the members of an object are modelled; for the keys the engine
  itself reads (\<^verbatim>\<open>node\<close>, \<^verbatim>\<open>id\<close>, \<^verbatim>\<open>shortcode\<close>, \<^verbatim>\<open>status\<close>,
  \<^verbatim>\<open>has_next_page\<close>, \<^verbatim>\<open>end_cursor\<close>) this is exact on every JSON value, since
  arrays, strings, numbers and booleans have no property of those names.
\<close>

fun js_prop :: "json \<Rightarrow> string \<Rightarrow> jsval" where
  "js_prop (JObj kvs) k = map_of kvs k"
| "js_prop v k = None"

text \<open>
  A value is primitive when a JavaScript \<^verbatim>\<open>Set\<close> compares it by value
  (SameValueZero): strings, numbers, booleans, \<^verbatim>\<open>null\<close>, \<^verbatim>\<open>undefined\<close>. Arrays and
  objects are compared by reference, and every array or object coming out of a parsed
  body is a fresh one.
\<close>

fun is_primitive :: "jsval \<Rightarrow> bool" where
  "is_primitive (Some (JArr xs)) = False"
| "is_primitive (Some (JObj kvs)) = False"
| "is_primitive v = True"

subsection \<open>The path lookup of the lodash library\<close>

text \<open>
  \<^verbatim>\<open>_.get(object, path, default)\<close> of the lodash library, for a path that is a string
  of keys separated by dots: the keys are followed from the object, the walk stops at
  \<^verbatim>\<open>null\<close> or \<^verbatim>\<open>undefined\<close>, and the default stands in for an
  \<^verbatim>\<open>undefined\<close> result (and only for that: a \<^verbatim>\<open>null\<close> found at the end of the
  path is returned). Bracket syntax in paths is not modelled.
\<close>

fun split_dots :: "string \<Rightarrow> string \<Rightarrow> string list" where
  "split_dots acc [] = [rev acc]"
| "split_dots acc (c # cs) =
     (if c = CHR ''.'' then rev acc # split_dots [] cs else split_dots (c # acc) cs)"

fun baseGet :: "jsval \<Rightarrow> string list \<Rightarrow> jsval" where
  "baseGet v [] = v"
| "baseGet None (k # ks) = None"
| "baseGet (Some JNull) (k # ks) = None"
| "baseGet (Some v) (k # ks) = baseGet (js_prop v k) ks"

definition lodash_get :: "jsval \<Rightarrow> string \<Rightarrow> json \<Rightarrow> json" where
  "lodash_get object path dflt =
     (case baseGet object (split_dots [] path) of None \<Rightarrow> dflt | Some r \<Rightarrow> r)"

section \<open>PostIdSet\<close>

text \<open>
  \<^verbatim>\<open>class PostIdSet { private ids: Set<string>; public add(id: string): boolean }\<close>.
  The ids that reach the set are read from parsed bodies without a check, so the set is
  over \<open>jsval\<close>. \<^verbatim>\<open>Set.has\<close> compares by SameValueZero: by value on primitives,
  and a freshly parsed array or object is never found.
\<close>

record PostIdSet =
  ids :: "jsval set"

definition has :: "jsval set \<Rightarrow> jsval \<Rightarrow> bool" where
  "has S v = (is_primitive v \<and> v \<in> S)"

definition add :: "jsval \<Rightarrow> PostIdSet \<Rightarrow> bool \<times> PostIdSet" where
  "add v p = (let contains = has (ids p) v in (contains, p\<lparr>ids := insert v (ids p)\<rparr>))"

text \<open>A string id, the declared parameter type of \<^verbatim>\<open>add\<close>.\<close>

definition str_id :: "string \<Rightarrow> jsval" where
  "str_id x = Some (JStr x)"

text \<open>A run of \<^verbatim>\<open>add\<close> calls on one set, keeping the returned booleans.\<close>

fun add_all :: "jsval list \<Rightarrow> PostIdSet \<Rightarrow> bool list \<times> PostIdSet" where
  "add_all [] p = ([], p)"
| "add_all (v # vs) p =
     (let (b, p1) = add v p; (bs, p2) = add_all vs p1 in (b # bs, p2))"

section \<open>Configuration, intercepted traffic, effects and session state\<close>

text \<open>
  The read-only fields the constructor sets from \<^verbatim>\<open>IOptions\<close> and from its
  arguments. \<^verbatim>\<open>headless\<close>, \<^verbatim>\<open>silent\<close>, \<^verbatim>\<open>proxyURL\<close> and the logger object only
  shape the browser launch and the status line, which are not modelled.
\<close>

record config =
  total :: int
  enableGrafting :: bool
  fullAPI :: bool
  sleepTime :: int
  hibernationTime :: int
  pageQuery :: string
  edgeQuery :: string
  url :: string

type_synonym headers = "(string \<times> string) list"

record request =
  req_url :: string
  req_headers :: headers

text \<open>\<open>res_json\<close> is \<open>None\<close> when \<^verbatim>\<open>res.json()\<close> throws.\<close>

record response =
  res_url :: string
  res_json :: "json option"

datatype error = FailedToVisitURL | TypeError

text \<open>
  What the engine does to the outside world, in order: calls on the browser and page,
  log lines, sleeps, continued requests. The status line written by
  \<^verbatim>\<open>progress\<close> is left out.
\<close>

datatype effect =
    Launch
  | NewPage
  | Goto string
  | Listen
  | ClosePage
  | CloseBrowser
  | LogException
  | LogError string
  | LogInfo string
  | LogDuplicate jsval
  | Sleep int
  | Continue request "headers option" "string option"
  | Jump

text \<open>
  The mutable fields of \<^verbatim>\<open>Instagram\<close>. \<open>browser\<close> and \<open>page\<close> say whether
  the field of that name holds an object: both are \<^verbatim>\<open>undefined\<close> until
  \<^verbatim>\<open>constructPage\<close> assigns them. \<open>pagePromises\<close> holds the shortcodes of the
  pending \<^verbatim>\<open>postPage\<close> calls; \<open>trace\<close> is the list of effects so far. The
  locks (\<^verbatim>\<open>AwaitLock\<close>) are not modelled: the embedding is sequential.
\<close>

record state =
  browser :: bool
  page :: bool
  postBuffer :: "json list"
  requestBuffer :: "request list"
  responseBuffer :: "response list"
  pagePromises :: "jsval list"
  graft :: bool
  lastURL :: "string option"
  lastHeaders :: "headers option"
  hibernate :: bool
  started :: bool
  paused :: bool
  finished :: bool
  postIds :: PostIdSet
  index :: int
  jumps :: nat
  pageUrlAttempts :: int
  trace :: "effect list"

definition catchURL :: string where
  "catchURL = ''https://www.instagram.com/graphql/query''"

definition maxPageUrlAttempts :: int where
  "maxPageUrlAttempts = 3"

definition jumpMod :: nat where
  "jumpMod = 100"

text \<open>The state the field initialisers and the constructor leave.\<close>

definition init :: state where
  "init = \<lparr> browser = False, page = False, postBuffer = [], requestBuffer = [], responseBuffer = [], pagePromises = [],
     graft = False, lastURL = None, lastHeaders = None, hibernate = False,
     started = False, paused = False, finished = False, postIds = \<lparr> ids = {} \<rparr>,
     index = 0, jumps = 0, pageUrlAttempts = 0, trace = [] \<rparr>"

definition emit :: "effect list \<Rightarrow> state \<Rightarrow> state" where
  "emit es s = s\<lparr>trace := trace s @ es\<rparr>"

definition matchURL :: "string \<Rightarrow> bool" where
  "matchURL u = (prefix catchURL u \<and> \<not> sublist ''include_reel'' u)"

section \<open>Outcomes\<close>

text \<open>
  A call ends in one of three ways: it returns (\<open>Done\<close>), it throws (\<open>Threw\<close>), or
  it has not returned when the modelled environment ends (\<open>Pending\<close>: the list of
  navigation outcomes or of poll cycles is used up, or the call waits for
  \<^verbatim>\<open>pause()\<close> to be toggled, which nothing in a sequential run does). Every
  operation returns the state it leaves, also when it throws.
\<close>

datatype ending = Done | Threw error | Pending

section \<open>Buffers and small operations\<close>

definition pause :: "state \<Rightarrow> state" where
  "pause s = s\<lparr>paused := \<not> paused s\<rparr>"

definition toggleHibernation :: "state \<Rightarrow> state" where
  "toggleHibernation s = s\<lparr>hibernate := True\<rparr>"

definition interceptRequest :: "request \<Rightarrow> state \<Rightarrow> state" where
  "interceptRequest req s = s\<lparr>requestBuffer := requestBuffer s @ [req]\<rparr>"

definition interceptResponse :: "response \<Rightarrow> state \<Rightarrow> state" where
  "interceptResponse res s = s\<lparr>responseBuffer := responseBuffer s @ [res]\<rparr>"

definition interceptFailure :: "request \<Rightarrow> state \<Rightarrow> state" where
  "interceptFailure req s = emit [LogInfo (''Failed: '' @ req_url req)] s"

definition addToPostBuffer :: "json \<Rightarrow> state \<Rightarrow> state" where
  "addToPostBuffer post s = s\<lparr>postBuffer := postBuffer s @ [post]\<rparr>"

text \<open>\<^verbatim>\<open>postPop\<close>: the first post of the buffer, or \<^verbatim>\<open>null\<close> when it is empty.\<close>

definition postPop :: "state \<Rightarrow> json \<times> state" where
  "postPop s =
     (case postBuffer s of
        [] \<Rightarrow> (JNull, s)
      | post # rest \<Rightarrow> (post, s\<lparr>postBuffer := rest\<rparr>))"

definition sleep :: "int \<Rightarrow> state \<Rightarrow> state" where
  "sleep time s = emit [Sleep time] s"

text \<open>
  \<^verbatim>\<open>jump\<close>: the key presses and the random pointer move are one \<open>Jump\<close> effect.
  The method is private and reached from \<^verbatim>\<open>getNext\<close> only, which the generator
  calls after \<^verbatim>\<open>start\<close>, so the page it reads exists.
\<close>

definition jump :: "state \<Rightarrow> state" where
  "jump s = (emit [Jump] s)\<lparr>jumps := jumps s + 1\<rparr>"

text \<open>
  \<^verbatim>\<open>waitResume\<close> polls \<^verbatim>\<open>paused\<close> every 200 ms. In a sequential run nothing
  toggles the flag, so a paused session stays in the loop.
\<close>

definition waitResume :: "state \<Rightarrow> ending \<times> state" where
  "waitResume s = (if paused s then (Pending, s) else (Done, s))"

text \<open>
  \<^verbatim>\<open>await Promise.all(this.pagePromises)\<close>. Each pending \<^verbatim>\<open>postPage(shortcode)\<close>
  visits the post's page, retrying until it succeeds, and pushes the parsed payload onto
  the post buffer. The payload comes from outside: \<open>fetch\<close> gives, for a shortcode,
  the payload of the attempt that succeeds. The calls run concurrently in the source;
  here they complete in the order they were made.
\<close>

definition awaitPagePromises :: "(jsval \<Rightarrow> json) \<Rightarrow> state \<Rightarrow> state" where
  "awaitPagePromises fetch s =
     s\<lparr>postBuffer := postBuffer s @ map fetch (pagePromises s), pagePromises := []\<rparr>"

section \<open>Browser session: constructPage, start, stop\<close>

text \<open>
  \<^verbatim>\<open>constructPage\<close>. The list gives the outcome of each \<^verbatim>\<open>page.goto\<close> in turn
  (\<open>True\<close>: the page loads). The test in the \<^verbatim>\<open>catch\<close> block is
  \<^verbatim>\<open>this.pageUrlAttempts++ === this.maxPageUrlAttempts && !this.started\<close>: the
  comparison reads the counter before the increment.
\<close>

fun constructPage :: "config \<Rightarrow> bool list \<Rightarrow> state \<Rightarrow> ending \<times> state \<times> bool list" where
  "constructPage c [] s = (Pending, s, [])"
| "constructPage c (ok # nav) s =
     (let s1 = emit [Launch, NewPage, Goto (url c)] (s\<lparr>browser := True, page := True\<rparr>) in
      if ok then (Done, s1, nav)
      else
        let attempts = pageUrlAttempts s1;
            s2 = s1\<lparr>pageUrlAttempts := attempts + 1\<rparr> in
        if attempts = maxPageUrlAttempts \<and> \<not> started s2 then (Threw FailedToVisitURL, s2, nav)
        else constructPage c nav (emit [LogException, Sleep 60, ClosePage, CloseBrowser] s2))"

definition start :: "config \<Rightarrow> bool list \<Rightarrow> state \<Rightarrow> ending \<times> state \<times> bool list" where
  "start c nav s =
     (case constructPage c nav s of
        (Done, s1, nav1) \<Rightarrow> (Done, emit [Listen] (s1\<lparr>started := True\<rparr>), nav1)
      | (e, s1, nav1) \<Rightarrow> (e, s1, nav1))"

text \<open>
  \<^verbatim>\<open>stop\<close> awaits the pending page visits, closes page and browser and then clears
  the two buffers. \<^verbatim>\<open>this.page.close()\<close> and \<^verbatim>\<open>this.browser.close()\<close> read a
  property of the field: on a session whose \<^verbatim>\<open>constructPage\<close> never ran the field
  is \<^verbatim>\<open>undefined\<close> and the read throws a TypeError, before any buffer is cleared.
  The public \<^verbatim>\<open>forceStop\<close> only awaits \<^verbatim>\<open>stop\<close>.
\<close>

definition stop :: "(jsval \<Rightarrow> json) \<Rightarrow> state \<Rightarrow> ending \<times> state" where
  "stop fetch s =
     (let s1 = awaitPagePromises fetch s in
      if \<not> page s1 then (Threw TypeError, s1)
      else
        let s2 = emit [ClosePage] s1 in
        if \<not> browser s2 then (Threw TypeError, s2)
        else
          let s3 = emit [CloseBrowser] s2;
              s4 = s3\<lparr>requestBuffer := []\<rparr>
          in (Done, s4\<lparr>responseBuffer := []\<rparr>))"


section \<open>Paginator: processRequests and processResponses\<close>

fun requestsLoop :: "request list \<Rightarrow> state \<Rightarrow> state" where
  "requestsLoop [] s = s"
| "requestsLoop (req # reqs) s =
     (if \<not> matchURL (req_url req) then requestsLoop reqs s
      else if graft s then
        requestsLoop reqs (emit [Continue req (lastHeaders s) (lastURL s)] s)
      else
        requestsLoop reqs
          (emit [Continue req (Some (req_headers req)) (Some (req_url req))]
             (s\<lparr>lastURL := Some (req_url req), lastHeaders := Some (req_headers req)\<rparr>)))"

definition processRequests :: "state \<Rightarrow> state" where
  "processRequests s = (requestsLoop (requestBuffer s) s)\<lparr>requestBuffer := []\<rparr>"

text \<open>
  \<^verbatim>\<open>data && "status" in data && data["status"] === "fail"\<close>. The \<^verbatim>\<open>in\<close> operator
  throws a TypeError on a truthy number, string or boolean.
\<close>

definition rateLimited :: "jsval \<Rightarrow> error + bool" where
  "rateLimited data =
     (if \<not> truthy data then Inr False
      else case data of
        Some (JObj kvs) \<Rightarrow> Inr (map_of kvs ''status'' = Some (JStr ''fail''))
      | Some (JArr xs) \<Rightarrow> Inr False
      | _ \<Rightarrow> Inl TypeError)"

text \<open>
  \<^verbatim>\<open>_.get(data, pageQuery + ".has_next_page", false) && _.get(data, pageQuery +
  ".end_cursor", false)\<close>, as a condition.
\<close>

definition hasNextPage :: "config \<Rightarrow> jsval \<Rightarrow> bool" where
  "hasNextPage c data =
     (truthy (Some (lodash_get data (pageQuery c @ ''.has_next_page'') (JBool False))) \<and>
      truthy (Some (lodash_get data (pageQuery c @ ''.end_cursor'') (JBool False))))"

text \<open>
  What \<^verbatim>\<open>for (const post of posts)\<close> runs over: the elements of an array, the
  characters of a string; any other JSON value is not iterable.
\<close>

fun iterate :: "json \<Rightarrow> error + json list" where
  "iterate (JArr xs) = Inr xs"
| "iterate (JStr cs) = Inr (map (\<lambda>ch. JStr [ch]) cs)"
| "iterate v = Inl TypeError"

text \<open>
  \<^verbatim>\<open>post["node"]\<close>, as far as the following \<^verbatim>\<open>["id"]\<close> needs it: reading a
  property of \<^verbatim>\<open>null\<close> or \<^verbatim>\<open>undefined\<close> throws.
\<close>

definition postNode :: "json \<Rightarrow> error + json" where
  "postNode post =
     (if post = JNull then Inl TypeError
      else case js_prop post ''node'' of
        None \<Rightarrow> Inl TypeError
      | Some JNull \<Rightarrow> Inl TypeError
      | Some node \<Rightarrow> Inr node)"

text \<open>The loop over the posts of one response; \<^verbatim>\<open>break\<close> ends it.\<close>

fun processPosts :: "config \<Rightarrow> json list \<Rightarrow> state \<Rightarrow> ending \<times> state" where
  "processPosts c [] s = (Done, s)"
| "processPosts c (post # posts) s =
     (case postNode post of
        Inl e \<Rightarrow> (Threw e, s)
      | Inr node \<Rightarrow>
          let postId = js_prop node ''id'';
              contains = fst (add postId (postIds s));
              s1 = s\<lparr>postIds := snd (add postId (postIds s))\<rparr>
          in
          if contains then processPosts c posts (emit [LogDuplicate postId] s1)
          else if index s1 < total c \<or> total c = 0 then
            let s2 = s1\<lparr>index := index s1 + 1\<rparr> in
            if fullAPI c then
              processPosts c posts
                (s2\<lparr>pagePromises := pagePromises s2 @ [js_prop node ''shortcode'']\<rparr>)
            else processPosts c posts (addToPostBuffer post s2)
          else (Done, s1\<lparr>finished := True\<rparr>))"

text \<open>
  The body of the loop over the responses, for a response whose URL matches: from
  \<^verbatim>\<open>// Get JSON data\<close> to the end of the loop over its posts. When
  \<^verbatim>\<open>res.json()\<close> throws, the \<^verbatim>\<open>catch\<close> block logs and \<^verbatim>\<open>data\<close> stays
  \<^verbatim>\<open>undefined\<close>.
\<close>

definition processResponse :: "config \<Rightarrow> response \<Rightarrow> state \<Rightarrow> ending \<times> state" where
  "processResponse c res s =
     (let data = res_json res;
          s1 = (if data = None
                then emit [LogError ''Error processing response JSON'', LogException] s
                else s)
      in
      case rateLimited data of
        Inl e \<Rightarrow> (Threw e, s1)
      | Inr True \<Rightarrow> (Done, (emit [LogInfo ''Rate limited''] s1)\<lparr>hibernate := True\<rparr>)
      | Inr False \<Rightarrow>
          let s2 = (if \<not> hasNextPage c data
                    then (emit [LogInfo ''No posts remaining''] s1)\<lparr>finished := True\<rparr>
                    else s1)
          in
          (case iterate (lodash_get data (edgeQuery c) (JArr [])) of
             Inl e \<Rightarrow> (Threw e, s2)
           | Inr posts \<Rightarrow> processPosts c posts s2))"

text \<open>The loop over the response buffer, with its local \<^verbatim>\<open>disableGraft\<close>.\<close>

fun responsesLoop :: "config \<Rightarrow> response list \<Rightarrow> bool \<Rightarrow> state \<Rightarrow> ending \<times> bool \<times> state" where
  "responsesLoop c [] disableGraft s = (Done, disableGraft, s)"
| "responsesLoop c (res # rs) disableGraft s =
     (if \<not> matchURL (res_url res) then responsesLoop c rs disableGraft s
      else
        case processResponse c res s of
          (Done, s1) \<Rightarrow> responsesLoop c rs True s1
        | (e, s1) \<Rightarrow> (e, True, s1))"

text \<open>
  \<^verbatim>\<open>processResponses\<close>. A throw leaves the method before the graft switch and
  before the buffer is cleared.
\<close>

definition processResponses :: "config \<Rightarrow> state \<Rightarrow> ending \<times> state" where
  "processResponses c s =
     (case responsesLoop c (responseBuffer s) False s of
        (Done, disableGraft, s1) \<Rightarrow>
          (Done, (if graft s1 \<and> disableGraft then s1\<lparr>graft := False\<rparr> else s1)
                   \<lparr>responseBuffer := []\<rparr>)
      | (e, disableGraft, s1) \<Rightarrow> (e, s1))"

section \<open>Grafting and the poll loop\<close>

definition initiateGraft ::
  "config \<Rightarrow> (jsval \<Rightarrow> json) \<Rightarrow> bool list \<Rightarrow> state \<Rightarrow> ending \<times> state \<times> bool list" where
  "initiateGraft c fetch nav s =
     (if \<not> enableGrafting c then (Done, s, nav)
      else
        case stop fetch s of
          (Done, s1) \<Rightarrow> start c nav (s1\<lparr>graft := True\<rparr>)
        | (e, s1) \<Rightarrow> (e, s1, nav))"

text \<open>
  The environment of one iteration of the loop in \<^verbatim>\<open>getNext\<close>: the requests and
  responses the page's callbacks have pushed since the buffers were last cleared.
\<close>

record cycle =
  newRequests :: "request list"
  newResponses :: "response list"

definition deliver :: "cycle \<Rightarrow> state \<Rightarrow> state" where
  "deliver cy s =
     fold interceptResponse (newResponses cy) (fold interceptRequest (newRequests cy) s)"

datatype flow = Break | Again

text \<open>One iteration of \<^verbatim>\<open>while (true)\<close> in \<^verbatim>\<open>getNext\<close>.\<close>

definition getNextBody ::
  "config \<Rightarrow> (jsval \<Rightarrow> json) \<Rightarrow> cycle \<Rightarrow> bool list \<Rightarrow> state
     \<Rightarrow> ending \<times> flow \<times> state \<times> bool list" where
  "getNextBody c fetch cy nav s =
     (let s1 = processRequests (deliver cy s) in
      case processResponses c s1 of
        (Done, s2) \<Rightarrow>
          let s3 = (awaitPagePromises fetch s2)\<lparr>pagePromises := []\<rparr> in
          if finished s3 then (Done, Break, s3, nav)
          else
            (case waitResume s3 of
               (Done, s4) \<Rightarrow>
                 let s5 = jump s4 in
                 (case (if jumps s5 mod jumpMod = 0 then initiateGraft c fetch nav s5
                        else (Done, s5, nav)) of
                    (Done, s6, nav1) \<Rightarrow>
                      let s7 = sleep (sleepTime c) s6;
                          s8 = (if hibernate s7
                                then (sleep (hibernationTime c) s7)\<lparr>hibernate := False\<rparr>
                                else s7)
                      in (Done, if postBuffer s8 \<noteq> [] then Break else Again, s8, nav1)
                  | (e, s6, nav1) \<Rightarrow> (e, Break, s6, nav1))
             | (e, s4) \<Rightarrow> (e, Break, s4, nav))
      | (e, s2) \<Rightarrow> (e, Break, s2, nav))"

text \<open>
  \<^verbatim>\<open>getNext\<close>: the loop runs one iteration per supplied cycle. When the cycles are
  used up the call is still in its loop.
\<close>

fun getNext ::
  "config \<Rightarrow> (jsval \<Rightarrow> json) \<Rightarrow> cycle list \<Rightarrow> bool list \<Rightarrow> state
     \<Rightarrow> ending \<times> state \<times> cycle list \<times> bool list" where
  "getNext c fetch [] nav s = (Pending, s, [], nav)"
| "getNext c fetch (cy # cys) nav s =
     (case getNextBody c fetch cy nav s of
        (Done, Again, s1, nav1) \<Rightarrow> getNext c fetch cys nav1 s1
      | (e, fl, s1, nav1) \<Rightarrow> (e, s1, cys, nav1))"

section \<open>The generator\<close>

text \<open>
  \<^verbatim>\<open>let post = await this.postPop(); while (post) { yield post; post = await
  this.postPop(); }\<close>: the posts yielded, and the state after the pop that ended the
  loop.
\<close>

function yieldPosts :: "state \<Rightarrow> json list \<times> state" where
  "yieldPosts s =
     (let (post, s1) = postPop s in
      if truthy (Some post) then
        let (posts, s2) = yieldPosts s1 in (post # posts, s2)
      else ([], s1))"
  by pat_completeness auto
termination
  by (relation "measure (\<lambda>s. length (postBuffer s))")
     (auto simp: postPop_def split: list.splits)

declare yieldPosts.simps [simp del]

text \<open>
  A call of \<^verbatim>\<open>getNext\<close> that returns or throws has run at least one iteration;
  the loop of the generator below terminates on the list of cycles for that reason.
\<close>

lemma getNext_consumes:
  "getNext c fetch cycles nav s = (e, s1, cycles1, nav1) \<Longrightarrow> e \<noteq> Pending
     \<Longrightarrow> length cycles1 < length cycles"
  by (induction cycles arbitrary: nav s)
     (fastforce split: prod.splits ending.splits flow.splits)+

lemma getNext_Done_shorter:
  "(Done, s1, cycles1, nav1) = getNext c fetch cycles nav s \<Longrightarrow> length cycles1 < length cycles"
  using getNext_consumes [of c fetch cycles nav s Done s1 cycles1 nav1] by simp

text \<open>
  The \<^verbatim>\<open>while (true)\<close> loop of \<^verbatim>\<open>generator\<close>: the posts it yields, how it
  ends, and the state it leaves.
\<close>

function generatorLoop ::
  "config \<Rightarrow> (jsval \<Rightarrow> json) \<Rightarrow> cycle list \<Rightarrow> bool list \<Rightarrow> state
     \<Rightarrow> json list \<times> ending \<times> state" where
  "generatorLoop c fetch cycles nav s =
     (case getNext c fetch cycles nav s of
        (Done, s1, cycles1, nav1) \<Rightarrow>
          let (posts, s2) = yieldPosts s1 in
          if finished s2 then (posts, Done, s2)
          else
            let (more, r) = generatorLoop c fetch cycles1 nav1 s2 in (posts @ more, r)
      | (e, s1, cycles1, nav1) \<Rightarrow> ([], e, s1))"
  by pat_completeness auto
termination
  apply (relation "measure (\<lambda>(c, fetch, cycles, nav, s). length cycles)")
   apply simp
  apply (auto dest: getNext_Done_shorter)
  done

declare generatorLoop.simps [simp del]

text \<open>
  \<^verbatim>\<open>generator\<close>, run to its end by a consumer that makes no other call on the
  engine: start if not started, loop, stop.
\<close>

definition generator ::
  "config \<Rightarrow> (jsval \<Rightarrow> json) \<Rightarrow> cycle list \<Rightarrow> bool list \<Rightarrow> state
     \<Rightarrow> json list \<times> ending \<times> state" where
  "generator c fetch cycles nav s =
     (case (if \<not> started s then start c nav s else (Done, s, nav)) of
        (Done, s1, nav1) \<Rightarrow>
          (case generatorLoop c fetch cycles nav1 s1 of
             (posts, Done, s2) \<Rightarrow> (case stop fetch s2 of (e, s3) \<Rightarrow> (posts, e, s3))
           | r \<Rightarrow> r)
      | (e, s1, nav1) \<Rightarrow> ([], e, s1))"

section \<open>Auxiliary notions for the proofs\<close>

text \<open>
  An observation of the state is kept by a group of operations when no update of a
  field the group writes changes it. \<open>keeps_posts\<close>: the fields written by the loop
  over posts; \<open>keeps_responses\<close>: those and \<open>hibernate\<close>; \<open>keeps_drain\<close>: all that
  \<^verbatim>\<open>processResponses\<close> writes; \<open>keeps_launch\<close>: what \<^verbatim>\<open>constructPage\<close> and
  \<^verbatim>\<open>start\<close> write (the trace, the attempt counter, \<open>started\<close>, \<open>browser\<close> and
  \<open>page\<close>); \<open>keeps_session\<close>: all that starting, stopping, grafting, jumping and
  sleeping write.
\<close>

definition keeps_posts :: "(state \<Rightarrow> 'a) \<Rightarrow> bool" where
  "keeps_posts obs =
     ((\<forall>s a. obs (s\<lparr>postIds := a\<rparr>) = obs s) \<and> (\<forall>s a. obs (s\<lparr>index := a\<rparr>) = obs s) \<and>
      (\<forall>s a. obs (s\<lparr>postBuffer := a\<rparr>) = obs s) \<and> (\<forall>s a. obs (s\<lparr>pagePromises := a\<rparr>) = obs s) \<and>
      (\<forall>s a. obs (s\<lparr>finished := a\<rparr>) = obs s) \<and> (\<forall>s a. obs (s\<lparr>trace := a\<rparr>) = obs s))"

definition keeps_responses :: "(state \<Rightarrow> 'a) \<Rightarrow> bool" where
  "keeps_responses obs = (keeps_posts obs \<and> (\<forall>s a. obs (s\<lparr>hibernate := a\<rparr>) = obs s))"

definition keeps_drain :: "(state \<Rightarrow> 'a) \<Rightarrow> bool" where
  "keeps_drain obs =
     (keeps_responses obs \<and> (\<forall>s a. obs (s\<lparr>graft := a\<rparr>) = obs s) \<and>
      (\<forall>s a. obs (s\<lparr>responseBuffer := a\<rparr>) = obs s))"

definition keeps_launch :: "(state \<Rightarrow> 'a) \<Rightarrow> bool" where
  "keeps_launch obs =
     ((\<forall>s a. obs (s\<lparr>trace := a\<rparr>) = obs s) \<and> (\<forall>s a. obs (s\<lparr>pageUrlAttempts := a\<rparr>) = obs s) \<and>
      (\<forall>s a. obs (s\<lparr>started := a\<rparr>) = obs s) \<and> (\<forall>s a. obs (s\<lparr>browser := a\<rparr>) = obs s) \<and>
      (\<forall>s a. obs (s\<lparr>page := a\<rparr>) = obs s))"

definition keeps_session :: "(state \<Rightarrow> 'a) \<Rightarrow> bool" where
  "keeps_session obs =
     (keeps_launch obs \<and> (\<forall>s a. obs (s\<lparr>requestBuffer := a\<rparr>) = obs s) \<and>
      (\<forall>s a. obs (s\<lparr>responseBuffer := a\<rparr>) = obs s) \<and> (\<forall>s a. obs (s\<lparr>graft := a\<rparr>) = obs s) \<and>
      (\<forall>s a. obs (s\<lparr>jumps := a\<rparr>) = obs s) \<and> (\<forall>s a. obs (s\<lparr>hibernate := a\<rparr>) = obs s) \<and>
      (\<forall>s a. obs (s\<lparr>postBuffer := a\<rparr>) = obs s) \<and> (\<forall>s a. obs (s\<lparr>pagePromises := a\<rparr>) = obs s))"

text \<open>
  The part of an iteration of \<^verbatim>\<open>getNext\<close> after the check of \<^verbatim>\<open>finished\<close>, and
  the iteration written with it.
\<close>

definition stimulate ::
  "config \<Rightarrow> (jsval \<Rightarrow> json) \<Rightarrow> bool list \<Rightarrow> state \<Rightarrow> ending \<times> flow \<times> state \<times> bool list" where
  "stimulate c fetch nav s3 =
     (case waitResume s3 of
        (Done, s4) \<Rightarrow>
          let s5 = jump s4 in
          (case (if jumps s5 mod jumpMod = 0 then initiateGraft c fetch nav s5
                 else (Done, s5, nav)) of
             (Done, s6, nav1) \<Rightarrow>
               let s7 = sleep (sleepTime c) s6;
                   s8 = (if hibernate s7
                         then (sleep (hibernationTime c) s7)\<lparr>hibernate := False\<rparr>
                         else s7)
               in (Done, if postBuffer s8 \<noteq> [] then Break else Again, s8, nav1)
           | (e, s6, nav1) \<Rightarrow> (e, Break, s6, nav1))
      | (e, s4) \<Rightarrow> (e, Break, s4, nav))"

text \<open>The buffered requests whose URL matches, in order.\<close>

definition matching :: "request list \<Rightarrow> request list" where
  "matching reqs = filter (\<lambda>r. matchURL (req_url r)) reqs"

text \<open>A URL of the intercepted API, for the examples.\<close>

definition apiURL :: string where
  "apiURL = ''https://www.instagram.com/graphql/query/?query_hash=f92f56d''"

text \<open>A configuration for the examples: the hashtag preset with a cap of two posts.\<close>

definition exampleConfig :: config where
  "exampleConfig =
     \<lparr> total = 2, enableGrafting = True, fullAPI = False, sleepTime = 2,
       hibernationTime = 1200,
       pageQuery = ''data.hashtag.edge_hashtag_to_media.page_info'',
       edgeQuery = ''data.hashtag.edge_hashtag_to_media.edges'',
       url = ''https://instagram.com/explore/tags/cats'' \<rparr>"

text \<open>\<open>keeps_requests\<close>: the fields written by \<^verbatim>\<open>processRequests\<close>.\<close>

definition keeps_requests :: "(state \<Rightarrow> 'a) \<Rightarrow> bool" where
  "keeps_requests obs =
     ((\<forall>s a. obs (s\<lparr>lastURL := a\<rparr>) = obs s) \<and> (\<forall>s a. obs (s\<lparr>lastHeaders := a\<rparr>) = obs s) \<and>
      (\<forall>s a. obs (s\<lparr>trace := a\<rparr>) = obs s) \<and> (\<forall>s a. obs (s\<lparr>requestBuffer := a\<rparr>) = obs s))"

text \<open>Whether a buffer of responses holds one whose URL matches.\<close>

definition anyMatching :: "response list \<Rightarrow> bool" where
  "anyMatching rs = (\<exists>r\<in>set rs. matchURL (res_url r))"

text \<open>A body with the failure status, and a response carrying it.\<close>

definition failBody :: json where
  "failBody = JObj [(''status'', JStr ''fail'')]"

definition failResponse :: response where
  "failResponse = \<lparr>res_url = apiURL, res_json = Some failBody\<rparr>"

text \<open>Whether a buffer of responses holds a matching one with the failure status.\<close>

definition anyRateLimited :: "response list \<Rightarrow> bool" where
  "anyRateLimited rs = (\<exists>r\<in>set rs. matchURL (res_url r) \<and> rateLimited (res_json r) = Inr True)"

text \<open>A response whose body is the empty object: no status, no page info, no posts.\<close>

definition emptyResponse :: response where
  "emptyResponse = \<lparr>res_url = apiURL, res_json = Some (JObj [])\<rparr>"

text \<open>
  \<open>keeps_control\<close>: an observation that no field of the session's control state
  changes: it may depend on the post buffer, the pending page visits, the id set,
  \<open>index\<close>, \<open>finished\<close> and \<open>paused\<close> only.
\<close>

definition keeps_control :: "(state \<Rightarrow> 'a) \<Rightarrow> bool" where
  "keeps_control obs =
     ((\<forall>s a. obs (s\<lparr>trace := a\<rparr>) = obs s) \<and> (\<forall>s a. obs (s\<lparr>pageUrlAttempts := a\<rparr>) = obs s) \<and>
      (\<forall>s a. obs (s\<lparr>started := a\<rparr>) = obs s) \<and> (\<forall>s a. obs (s\<lparr>requestBuffer := a\<rparr>) = obs s) \<and>
      (\<forall>s a. obs (s\<lparr>responseBuffer := a\<rparr>) = obs s) \<and> (\<forall>s a. obs (s\<lparr>graft := a\<rparr>) = obs s) \<and>
      (\<forall>s a. obs (s\<lparr>jumps := a\<rparr>) = obs s) \<and> (\<forall>s a. obs (s\<lparr>hibernate := a\<rparr>) = obs s) \<and>
      (\<forall>s a. obs (s\<lparr>lastURL := a\<rparr>) = obs s) \<and> (\<forall>s a. obs (s\<lparr>lastHeaders := a\<rparr>) = obs s) \<and>
      (\<forall>s a. obs (s\<lparr>browser := a\<rparr>) = obs s) \<and> (\<forall>s a. obs (s\<lparr>page := a\<rparr>) = obs s))"

text \<open>
  The state of \<^verbatim>\<open>processResponses\<close> after the body of a response was read, and
  after its page info was checked.
\<close>

definition afterParse :: "response \<Rightarrow> state \<Rightarrow> state" where
  "afterParse res s =
     (if res_json res = None
      then emit [LogError ''Error processing response JSON'', LogException] s
      else s)"

definition afterPageInfo :: "config \<Rightarrow> response \<Rightarrow> state \<Rightarrow> state" where
  "afterPageInfo c res s =
     (if \<not> hasNextPage c (res_json res)
      then (emit [LogInfo ''No posts remaining''] (afterParse res s))\<lparr>finished := True\<rparr>
      else afterParse res s)"

text \<open>
  The id the engine reads from a post, \<^verbatim>\<open>post["node"]["id"]\<close>, as a total function
  (\<^verbatim>\<open>undefined\<close> where the read would throw).
\<close>

definition post_id :: "json \<Rightarrow> jsval" where
  "post_id post = (case postNode post of Inr node \<Rightarrow> js_prop node ''id'' | Inl e \<Rightarrow> None)"

text \<open>
  \<open>dedup ps S\<close>: among the posts \<open>ps\<close> no primitive id occurs twice, and every id
  is in \<open>S\<close>. \<open>dedupInv out s\<close> says so of the posts yielded so far followed by the
  post buffer, against the id set, with no page visit pending.
\<close>

definition dedup :: "json list \<Rightarrow> jsval set \<Rightarrow> bool" where
  "dedup ps S = (distinct (filter is_primitive (map post_id ps)) \<and> set (map post_id ps) \<subseteq> S)"

definition dedupInv :: "json list \<Rightarrow> state \<Rightarrow> bool" where
  "dedupInv out s = (pagePromises s = [] \<and> dedup (out @ postBuffer s) (ids (postIds s)))"

text \<open>
  \<open>countInv\<close>: posts yielded, buffered and pending are at most \<open>index\<close>.
  \<open>exactInv\<close>: only truthy posts are buffered, page visits are pending in
  full-detail mode only, and yielded, buffered and pending posts are exactly
  \<open>index\<close>.
\<close>

definition countInv :: "json list \<Rightarrow> state \<Rightarrow> bool" where
  "countInv out s =
     (int (length out) + int (length (postBuffer s)) + int (length (pagePromises s)) \<le> index s)"

definition exactInv :: "config \<Rightarrow> json list \<Rightarrow> state \<Rightarrow> bool" where
  "exactInv c out s =
     ((fullAPI c \<or> pagePromises s = []) \<and> (\<forall>p\<in>set (postBuffer s). truthy (Some p)) \<and>
      int (length out) + int (length (postBuffer s)) + int (length (pagePromises s)) = index s)"

text \<open>
  \<open>goodFetch\<close>: in full-detail mode every payload a page visit delivers is truthy (an
  object, as the page's data is).
\<close>

definition goodFetch :: "config \<Rightarrow> (jsval \<Rightarrow> json) \<Rightarrow> bool" where
  "goodFetch c fetch = (fullAPI c \<longrightarrow> (\<forall>sc. truthy (Some (fetch sc))))"

text \<open>
  \<open>capInv\<close>: \<open>index\<close> is at most the cap; below the cap every id seen was counted;
  and unless \<open>finished\<close> is set every id seen was counted.
\<close>

definition capInv :: "config \<Rightarrow> state \<Rightarrow> bool" where
  "capInv c s =
     (finite (ids (postIds s)) \<and> index s \<le> total c \<and>
      (index s = total c \<or> int (card (ids (postIds s))) \<le> index s) \<and>
      (finished s \<or> int (card (ids (postIds s))) \<le> index s))"

text \<open>Example posts and response bodies in the shape of the hashtag preset.\<close>

definition examplePost :: "string \<Rightarrow> string \<Rightarrow> json" where
  "examplePost i sc = JObj [(''node'', JObj [(''id'', JStr i), (''shortcode'', JStr sc)])]"

definition examplePage :: "json list \<Rightarrow> bool \<Rightarrow> json" where
  "examplePage posts nxt =
     JObj [(''data'', JObj [(''hashtag'', JObj [(''edge_hashtag_to_media'',
        JObj [(''page_info'', JObj [(''has_next_page'', JBool nxt), (''end_cursor'', JStr ''c1'')]),
              (''edges'', JArr posts)])])])]"

definition pageResponse :: "json list \<Rightarrow> bool \<Rightarrow> response" where
  "pageResponse posts nxt = \<lparr>res_url = apiURL, res_json = Some (examplePage posts nxt)\<rparr>"

text \<open>A fresh session after a first navigation that succeeds at once.\<close>

definition startState :: "config \<Rightarrow> state" where
  "startState c = init\<lparr>browser := True, page := True, started := True,
                       trace := [Launch, NewPage, Goto (url c), Listen]\<rparr>"

text \<open>
  The posts of a response, as the loop of \<^verbatim>\<open>processResponses\<close> runs over them (none
  when the value found at \<open>edgeQuery\<close> is not iterable), and whether a response ends
  the pagination: it is not a rate-limit reply and its page info does not give both a
  next-page flag and an end cursor.
\<close>

definition postsOf :: "config \<Rightarrow> response \<Rightarrow> json list" where
  "postsOf c res =
     (case iterate (lodash_get (res_json res) (edgeQuery c) (JArr [])) of
        Inr posts \<Rightarrow> posts
      | Inl e \<Rightarrow> [])"

definition endsPagination :: "config \<Rightarrow> response \<Rightarrow> bool" where
  "endsPagination c res =
     (rateLimited (res_json res) = Inr False \<and> \<not> hasNextPage c (res_json res))"

text \<open>
  The responses with a matching URL that a list of poll cycles delivers, and the posts
  they offer, in order.
\<close>

definition delivered :: "cycle list \<Rightarrow> response list" where
  "delivered cycles = filter (\<lambda>res. matchURL (res_url res)) (concat (map newResponses cycles))"

definition offered :: "config \<Rightarrow> cycle list \<Rightarrow> json list" where
  "offered c cycles = concat (map (postsOf c) (delivered cycles))"

text \<open>
  \<open>buffered R s\<close>: every response in the response buffer with a matching URL
  satisfies \<open>R\<close>.
\<close>

definition buffered :: "(response \<Rightarrow> bool) \<Rightarrow> state \<Rightarrow> bool" where
  "buffered R s = (\<forall>res\<in>set (responseBuffer s). matchURL (res_url res) \<longrightarrow> R res)"

text \<open>
  \<open>capUpper\<close>: when every id seen is compared by value, no more posts were counted
  than ids were seen, and \<open>finished\<close> is set only with more ids seen than the cap.
\<close>

definition capUpper :: "config \<Rightarrow> state \<Rightarrow> bool" where
  "capUpper c s =
     (finite (ids (postIds s)) \<and>
      ((\<forall>v\<in>ids (postIds s). is_primitive v) \<longrightarrow>
         index s \<le> int (card (ids (postIds s))) \<and>
         (finished s \<longrightarrow> total c < int (card (ids (postIds s))))))"

text \<open>A poll cycle that delivers one page of results, and a session at the cap of two.\<close>

definition pageCycle :: "json list \<Rightarrow> bool \<Rightarrow> cycle" where
  "pageCycle posts nxt = \<lparr>newRequests = [], newResponses = [pageResponse posts nxt]\<rparr>"

definition atCap :: state where
  "atCap = (startState exampleConfig)
             \<lparr>postIds := \<lparr>ids = {str_id ''1'', str_id ''2''}\<rparr>, index := 2\<rparr>"

text \<open>
  \<^verbatim>\<open>post["node"]["shortcode"]\<close>, the argument of \<^verbatim>\<open>postPage\<close>, as a total function,
  and the record the caller gets for a post the engine accepts: the post itself, or in
  full-detail mode the payload of the visit to the post's page.
\<close>

definition shortcode :: "json \<Rightarrow> jsval" where
  "shortcode post = (case postNode post of Inr node \<Rightarrow> js_prop node ''shortcode'' | Inl e \<Rightarrow> None)"

definition recordOf :: "config \<Rightarrow> (jsval \<Rightarrow> json) \<Rightarrow> json \<Rightarrow> json" where
  "recordOf c fetch post = (if fullAPI c then fetch (shortcode post) else post)"

text \<open>
  \<open>srcInv\<close>: the records yielded so far, then those buffered, then those the pending
  page visits will deliver, are in this order records of posts \<open>acc\<close> that come from
  \<open>A\<close>, have pairwise distinct ids (as far as ids are compared by value), all of
  them in the id set, and are as many as \<open>index\<close> counts.
\<close>

definition srcInv ::
  "config \<Rightarrow> (jsval \<Rightarrow> json) \<Rightarrow> json set \<Rightarrow> json list \<Rightarrow> state \<Rightarrow> bool" where
  "srcInv c fetch A out s =
     ((fullAPI c \<or> pagePromises s = []) \<and>
      (\<exists>acc. set acc \<subseteq> A \<and> distinct (filter is_primitive (map post_id acc)) \<and>
         post_id ` set acc \<subseteq> ids (postIds s) \<and> int (length acc) = index s \<and>
         subseq (out @ postBuffer s @ map fetch (pagePromises s)) (map (recordOf c fetch) acc)))"

text \<open>A started session that has accepted the post with id 1.\<close>

definition seenOne :: state where
  "seenOne = (startState exampleConfig)
               \<lparr>postBuffer := [examplePost ''1'' ''a''], postIds := \<lparr>ids = {str_id ''1''}\<rparr>,
                index := 1\<rparr>"






section \<open>PostIdSet: what add returns and keeps\<close>

lemma ids_add: "ids (snd (add v p)) = insert v (ids p)"
  by (simp add: add_def)

lemma fst_add: "fst (add v p) = (is_primitive v \<and> v \<in> ids p)"
  by (simp add: add_def has_def)

lemma ids_add_all: "ids (snd (add_all vs p)) = ids p \<union> set vs"
  by (induction vs arbitrary: p) (simp_all add: case_prod_unfold Let_def ids_add)

lemma str_id_inj: "(str_id x = str_id y) = (x = y)"
  by (simp add: str_id_def)

lemma str_id_primitive: "is_primitive (str_id x)"
  by (simp add: str_id_def)

text \<open>
  C9. On a set created empty and then given the ids \<open>xs\<close> by calls of \<^verbatim>\<open>add\<close>, a
  further \<^verbatim>\<open>add(x)\<close> returns true exactly when \<open>x\<close> is among \<open>xs\<close>; after
  it \<open>x\<close> is a member; no call removes an id; and adding the same id again leaves the
  contents as they are. Ids are strings, as \<^verbatim>\<open>add(id: string)\<close> declares.
\<close>

theorem C9_add_reports_membership:
  "fst (add (str_id x) (snd (add_all (map str_id xs) \<lparr>ids = {}\<rparr>))) = (x \<in> set xs)
   \<and> str_id x \<in> ids (snd (add (str_id x) p))
   \<and> ids p \<subseteq> ids (snd (add v p))
   \<and> ids (snd (add v (snd (add v p)))) = ids (snd (add v p))"
proof -
  have "ids (snd (add_all (map str_id xs) \<lparr>ids = {}\<rparr>)) = str_id ` set xs"
    by (simp add: ids_add_all)
  then have "fst (add (str_id x) (snd (add_all (map str_id xs) \<lparr>ids = {}\<rparr>))) = (x \<in> set xs)"
    by (auto simp: fst_add str_id_primitive str_id_inj)
  moreover have "str_id x \<in> ids (snd (add (str_id x) p))"
    by (simp add: ids_add)
  moreover have "ids p \<subseteq> ids (snd (add v p))"
    by (auto simp: ids_add)
  moreover have "ids (snd (add v (snd (add v p)))) = ids (snd (add v p))"
    by (auto simp: ids_add)
  ultimately show ?thesis by blast
qed

theorem C9_add_reports_membership_witness:
  "fst (add (str_id ''17'') (snd (add_all (map str_id [''17'', ''42'']) \<lparr>ids = {}\<rparr>)))
   \<and> \<not> fst (add (str_id ''5'') (snd (add_all (map str_id [''17'', ''42'']) \<lparr>ids = {}\<rparr>)))"
  using C9_add_reports_membership [of "''17''" "[''17'', ''42'']"]
        C9_add_reports_membership [of "''5''" "[''17'', ''42'']"]
  by simp

section \<open>What each operation leaves alone\<close>

lemma processPosts_frame:
  "keeps_posts obs \<Longrightarrow> obs (snd (processPosts c posts s)) = obs s"
  by (induction posts arbitrary: s)
     (simp_all add: keeps_posts_def Let_def emit_def addToPostBuffer_def split: sum.splits)

lemma processResponse_frame:
  assumes "keeps_responses obs"
  shows "obs (snd (processResponse c res s)) = obs s"
proof -
  from assms have p: "keeps_posts obs" and h: "\<And>s a. obs (s\<lparr>hibernate := a\<rparr>) = obs s"
    by (simp_all add: keeps_responses_def)
  from p have t: "\<And>s a. obs (s\<lparr>trace := a\<rparr>) = obs s" and f: "\<And>s a. obs (s\<lparr>finished := a\<rparr>) = obs s"
    by (simp_all add: keeps_posts_def)
  show ?thesis
    by (simp add: processResponse_def Let_def emit_def processPosts_frame [OF p] t f h
        split: sum.splits bool.splits)
qed

lemma responsesLoop_frame:
  assumes "keeps_responses obs"
  shows "obs (snd (snd (responsesLoop c rs dg s))) = obs s"
proof (induction rs arbitrary: dg s)
  case Nil
  show ?case by simp
next
  case (Cons res rs)
  show ?case
  proof (cases "matchURL (res_url res)")
    case False
    with Cons show ?thesis by simp
  next
    case True
    obtain e1 s1 where p: "processResponse c res s = (e1, s1)" by (cases "processResponse c res s")
    from processResponse_frame [OF assms, of c res s] p have f: "obs s1 = obs s" by simp
    show ?thesis
    proof (cases e1)
      case Done
      with True p have "responsesLoop c (res # rs) dg s = responsesLoop c rs True s1" by simp
      with Cons.IH [of True s1] f show ?thesis by simp
    next
      case (Threw x)
      with True p f show ?thesis by simp
    next
      case Pending
      with True p f show ?thesis by simp
    qed
  qed
qed

lemma processResponses_frame:
  assumes "keeps_drain obs"
  shows "obs (snd (processResponses c s)) = obs s"
proof -
  from assms have k: "keeps_responses obs" and g: "\<And>s a. obs (s\<lparr>graft := a\<rparr>) = obs s"
    and rb: "\<And>s a. obs (s\<lparr>responseBuffer := a\<rparr>) = obs s"
    by (simp_all add: keeps_drain_def)
  obtain e dg s1 where r: "responsesLoop c (responseBuffer s) False s = (e, dg, s1)"
    by (cases "responsesLoop c (responseBuffer s) False s") auto
  from responsesLoop_frame [OF k, of c "responseBuffer s" False s] r
  have "obs s1 = obs s" by simp
  with r show ?thesis
    by (cases e) (simp_all add: processResponses_def g rb)
qed

lemma constructPage_frame:
  assumes "keeps_launch obs"
  shows "obs (fst (snd (constructPage c nav s))) = obs s"
proof -
  from assms have u: "\<And>s a. obs (s\<lparr>trace := a\<rparr>) = obs s"
    "\<And>s a. obs (s\<lparr>pageUrlAttempts := a\<rparr>) = obs s"
    "\<And>s a. obs (s\<lparr>browser := a\<rparr>) = obs s" "\<And>s a. obs (s\<lparr>page := a\<rparr>) = obs s"
    by (simp_all add: keeps_launch_def)
  show ?thesis
    by (induction nav arbitrary: s) (simp_all add: Let_def emit_def u)
qed

lemma start_frame:
  assumes "keeps_launch obs"
  shows "obs (fst (snd (start c nav s))) = obs s"
proof -
  from assms have u: "\<And>s a. obs (s\<lparr>trace := a\<rparr>) = obs s" "\<And>s a. obs (s\<lparr>started := a\<rparr>) = obs s"
    by (simp_all add: keeps_launch_def)
  obtain e s1 nav1 where r: "constructPage c nav s = (e, s1, nav1)"
    by (cases "constructPage c nav s") auto
  from constructPage_frame [OF assms, of c nav s] r have "obs s1 = obs s" by simp
  with r show ?thesis by (cases e) (simp_all add: start_def emit_def u)
qed

lemma keeps_session_launch: "keeps_session obs \<Longrightarrow> keeps_launch obs"
  by (simp add: keeps_session_def)

lemma stop_frame:
  assumes "keeps_session obs"
  shows "obs (snd (stop fetch s)) = obs s"
  using assms
  by (simp add: keeps_session_def keeps_launch_def stop_def awaitPagePromises_def emit_def Let_def)

lemma initiateGraft_frame:
  assumes "keeps_session obs"
  shows "obs (fst (snd (initiateGraft c fetch nav s))) = obs s"
proof (cases "enableGrafting c")
  case False
  then show ?thesis by (simp add: initiateGraft_def)
next
  case True
  from assms have g: "\<And>s a. obs (s\<lparr>graft := a\<rparr>) = obs s"
    by (simp add: keeps_session_def)
  obtain e s1 where r: "stop fetch s = (e, s1)" by (cases "stop fetch s")
  from stop_frame [OF assms, of fetch s] r have o: "obs s1 = obs s" by simp
  from True r o show ?thesis
    by (cases e)
       (simp_all add: initiateGraft_def start_frame [OF keeps_session_launch [OF assms]] g)
qed

lemma getNextBody_phases:
  "getNextBody c fetch cy nav s =
     (case processResponses c (processRequests (deliver cy s)) of
        (Done, s2) \<Rightarrow>
          let s3 = (awaitPagePromises fetch s2)\<lparr>pagePromises := []\<rparr> in
          if finished s3 then (Done, Break, s3, nav) else stimulate c fetch nav s3
      | (e, s2) \<Rightarrow> (e, Break, s2, nav))"
  unfolding getNextBody_def stimulate_def Let_def by (rule refl)

lemma stimulate_frame:
  assumes "keeps_session obs"
  shows "obs (fst (snd (snd (stimulate c fetch nav s)))) = obs s"
proof -
  from assms have u: "\<And>s a. obs (s\<lparr>trace := a\<rparr>) = obs s"
    "\<And>s a. obs (s\<lparr>jumps := a\<rparr>) = obs s" "\<And>s a. obs (s\<lparr>hibernate := a\<rparr>) = obs s"
    by (simp_all add: keeps_session_def keeps_launch_def)
  show ?thesis
  proof (cases "paused s")
    case True
    then show ?thesis by (simp add: stimulate_def waitResume_def)
  next
    case False
    have j: "obs (jump s) = obs s" by (simp add: jump_def emit_def u)
    define g where "g = (if jumps (jump s) mod jumpMod = 0 then initiateGraft c fetch nav (jump s)
                 else (Done, jump s, nav))"
    obtain e s6 nav1 where r: "g = (e, s6, nav1)" by (cases g) auto
    have "obs (fst (snd g)) = obs (jump s)"
      unfolding g_def using initiateGraft_frame [OF assms, of c fetch nav "jump s"] by simp
    with r j have o: "obs s6 = obs s" by simp
    from False r o show ?thesis
      by (cases e) (simp_all add: stimulate_def waitResume_def Let_def sleep_def emit_def u g_def [symmetric])
  qed
qed

lemma getNextBody_frame:
  assumes "keeps_drain obs" "keeps_session obs"
  shows "obs (fst (snd (snd (getNextBody c fetch cy nav s)))) = obs (processRequests (deliver cy s))"
proof -
  from assms(2) have pb: "\<And>s a. obs (s\<lparr>postBuffer := a\<rparr>) = obs s"
    and pp: "\<And>s a. obs (s\<lparr>pagePromises := a\<rparr>) = obs s"
    by (simp_all add: keeps_session_def)
  define s1 where "s1 = processRequests (deliver cy s)"
  obtain e s2 where r: "processResponses c s1 = (e, s2)" by (cases "processResponses c s1")
  from processResponses_frame [OF assms(1), of c s1] r have o: "obs s2 = obs s1" by simp
  define s3 where "s3 = (awaitPagePromises fetch s2)\<lparr>pagePromises := []\<rparr>"
  have o3: "obs s3 = obs s1" by (simp add: s3_def awaitPagePromises_def pb pp o)
  have "obs (fst (snd (snd (stimulate c fetch nav s3)))) = obs s3"
    by (rule stimulate_frame [OF assms(2)])
  with r o o3 show ?thesis
    by (cases e) (simp_all add: getNextBody_phases s1_def [symmetric] s3_def [symmetric] Let_def)
qed

lemma getNextBody_frame_session:
  assumes "keeps_session obs"
  shows "obs (fst (snd (snd (getNextBody c fetch cy nav s))))
           = obs (snd (processResponses c (processRequests (deliver cy s))))"
proof -
  from assms have pb: "\<And>s a. obs (s\<lparr>postBuffer := a\<rparr>) = obs s"
    and pp: "\<And>s a. obs (s\<lparr>pagePromises := a\<rparr>) = obs s"
    by (simp_all add: keeps_session_def)
  define s1 where "s1 = processRequests (deliver cy s)"
  obtain e s2 where r: "processResponses c s1 = (e, s2)" by (cases "processResponses c s1")
  define s3 where "s3 = (awaitPagePromises fetch s2)\<lparr>pagePromises := []\<rparr>"
  have o3: "obs s3 = obs s2" by (simp add: s3_def awaitPagePromises_def pb pp)
  have "obs (fst (snd (snd (stimulate c fetch nav s3)))) = obs s3"
    by (rule stimulate_frame [OF assms])
  with r o3 show ?thesis
    by (cases e) (simp_all add: getNextBody_phases s1_def [symmetric] s3_def [symmetric] Let_def)
qed

lemma keeps_template:
  "keeps_drain lastURL" "keeps_drain lastHeaders"
  "keeps_session lastURL" "keeps_session lastHeaders"
  by (simp_all add: keeps_drain_def keeps_responses_def keeps_posts_def keeps_session_def
      keeps_launch_def)

section \<open>Requests: continuing and grafting\<close>

lemma requestsLoop_graft:
  "graft s \<Longrightarrow> requestsLoop reqs s =
     emit (map (\<lambda>r. Continue r (lastHeaders s) (lastURL s)) (matching reqs)) s"
  by (induction reqs arbitrary: s) (simp_all add: emit_def matching_def)

lemma requestsLoop_no_graft:
  "\<not> graft s \<Longrightarrow> requestsLoop reqs s =
     emit (map (\<lambda>r. Continue r (Some (req_headers r)) (Some (req_url r))) (matching reqs))
       (s\<lparr>lastURL := (if matching reqs = [] then lastURL s else Some (req_url (last (matching reqs)))),
          lastHeaders := (if matching reqs = [] then lastHeaders s
                          else Some (req_headers (last (matching reqs))))\<rparr>)"
  by (induction reqs arbitrary: s) (simp_all add: emit_def matching_def)

lemma matchURL_apiURL: "matchURL apiURL"
  unfolding matchURL_def apiURL_def catchURL_def by code_simp

text \<open>
  C5. While \<open>graft\<close> is true, \<^verbatim>\<open>processRequests\<close> continues every buffered request
  whose URL matches with the stored \<open>lastHeaders\<close> and \<open>lastURL\<close>, whatever the
  request's own, and leaves the stored pair as it is. While \<open>graft\<close> is false it
  continues each with its own headers and URL and stores those of the last one. Nothing
  else in an iteration of \<^verbatim>\<open>getNext\<close> writes the stored pair, and neither does
  \<^verbatim>\<open>initiateGraft\<close>: during grafting the pair is the one captured before it
  began.
\<close>

theorem C5_graft_replays_template:
  "(graft s \<longrightarrow>
      processRequests s =
        (emit (map (\<lambda>r. Continue r (lastHeaders s) (lastURL s)) (matching (requestBuffer s))) s)
          \<lparr>requestBuffer := []\<rparr>)
   \<and> (\<not> graft s \<longrightarrow>
      processRequests s =
        (emit (map (\<lambda>r. Continue r (Some (req_headers r)) (Some (req_url r)))
                 (matching (requestBuffer s)))
           (s\<lparr>lastURL := (if matching (requestBuffer s) = [] then lastURL s
                           else Some (req_url (last (matching (requestBuffer s))))),
              lastHeaders := (if matching (requestBuffer s) = [] then lastHeaders s
                              else Some (req_headers (last (matching (requestBuffer s)))))\<rparr>))
          \<lparr>requestBuffer := []\<rparr>)
   \<and> lastURL (fst (snd (snd (getNextBody c fetch cy nav s)))) = lastURL (processRequests (deliver cy s))
   \<and> lastHeaders (fst (snd (snd (getNextBody c fetch cy nav s))))
       = lastHeaders (processRequests (deliver cy s))
   \<and> lastURL (fst (snd (initiateGraft c fetch nav s))) = lastURL s
   \<and> lastHeaders (fst (snd (initiateGraft c fetch nav s))) = lastHeaders s"
proof -
  have a: "graft s \<longrightarrow>
      processRequests s =
        (emit (map (\<lambda>r. Continue r (lastHeaders s) (lastURL s)) (matching (requestBuffer s))) s)
          \<lparr>requestBuffer := []\<rparr>"
    by (simp add: processRequests_def requestsLoop_graft)
  have b: "\<not> graft s \<longrightarrow>
      processRequests s =
        (emit (map (\<lambda>r. Continue r (Some (req_headers r)) (Some (req_url r)))
                 (matching (requestBuffer s)))
           (s\<lparr>lastURL := (if matching (requestBuffer s) = [] then lastURL s
                           else Some (req_url (last (matching (requestBuffer s))))),
              lastHeaders := (if matching (requestBuffer s) = [] then lastHeaders s
                              else Some (req_headers (last (matching (requestBuffer s)))))\<rparr>))
          \<lparr>requestBuffer := []\<rparr>"
    by (simp add: processRequests_def requestsLoop_no_graft)
  note c1 = getNextBody_frame [OF keeps_template(1,3), of c fetch cy nav s]
  note c2 = getNextBody_frame [OF keeps_template(2,4), of c fetch cy nav s]
  note d1 = initiateGraft_frame [OF keeps_template(3), of c fetch nav s]
  note d2 = initiateGraft_frame [OF keeps_template(4), of c fetch nav s]
  from a b c1 c2 d1 d2 show ?thesis by blast
qed

theorem C5_graft_replays_template_witness:
  "trace (processRequests
     (init\<lparr>graft := True, lastURL := Some ''https://www.instagram.com/graphql/query/?page=1'',
           lastHeaders := Some [(''x-token'', ''a'')],
           requestBuffer := [\<lparr>req_url = apiURL, req_headers = [(''x-token'', ''b'')]\<rparr>]\<rparr>))
   = [Continue \<lparr>req_url = apiURL, req_headers = [(''x-token'', ''b'')]\<rparr>
        (Some [(''x-token'', ''a'')]) (Some ''https://www.instagram.com/graphql/query/?page=1'')]
   \<and> lastURL (processRequests
     (init\<lparr>requestBuffer := [\<lparr>req_url = apiURL, req_headers = [(''x-token'', ''b'')]\<rparr>]\<rparr>))
     = Some apiURL"
  using C5_graft_replays_template
      [of "init\<lparr>graft := True, lastURL := Some ''https://www.instagram.com/graphql/query/?page=1'',
           lastHeaders := Some [(''x-token'', ''a'')],
           requestBuffer := [\<lparr>req_url = apiURL, req_headers = [(''x-token'', ''b'')]\<rparr>]\<rparr>"]
    C5_graft_replays_template
      [of "init\<lparr>requestBuffer := [\<lparr>req_url = apiURL, req_headers = [(''x-token'', ''b'')]\<rparr>]\<rparr>"]
  by (simp add: init_def emit_def matching_def matchURL_apiURL)

section \<open>Navigation failures before the first start\<close>

lemma constructPage_started:
  "started s \<Longrightarrow> fst (constructPage c nav s) \<noteq> Threw e"
  by (induction nav arbitrary: s) (simp_all add: Let_def emit_def)

text \<open>
  C3. The counter is compared before it is incremented, so the first three failed
  navigations of a fresh session are retried (each logs the error, sleeps 60 seconds
  and closes page and browser), and a fourth attempt is made: when it succeeds the
  engine starts; the fatal condition is thrown by the fourth consecutive failure.
\<close>

theorem C3_three_failures_are_retried:
  "constructPage c [False, False, False, True] init =
     (Done,
      init\<lparr>browser := True, page := True, pageUrlAttempts := 3,
           trace := [Launch, NewPage, Goto (url c), LogException, Sleep 60, ClosePage, CloseBrowser,
                     Launch, NewPage, Goto (url c), LogException, Sleep 60, ClosePage, CloseBrowser,
                     Launch, NewPage, Goto (url c), LogException, Sleep 60, ClosePage, CloseBrowser,
                     Launch, NewPage, Goto (url c)]\<rparr>,
      [])
   \<and> fst (start c [False, False, False, True] init) = Done
   \<and> started (fst (snd (start c [False, False, False, True] init)))
   \<and> fst (constructPage c [False, False, False, False] init) = Threw FailedToVisitURL
   \<and> generator c fetch cycles [False, False, False, False] init
       = ([], Threw FailedToVisitURL, fst (snd (constructPage c [False, False, False, False] init)))"
proof -
  have a: "constructPage c [False, False, False, True] init =
     (Done,
      init\<lparr>browser := True, page := True, pageUrlAttempts := 3,
           trace := [Launch, NewPage, Goto (url c), LogException, Sleep 60, ClosePage, CloseBrowser,
                     Launch, NewPage, Goto (url c), LogException, Sleep 60, ClosePage, CloseBrowser,
                     Launch, NewPage, Goto (url c), LogException, Sleep 60, ClosePage, CloseBrowser,
                     Launch, NewPage, Goto (url c)]\<rparr>,
      [])"
    by (simp add: init_def emit_def Let_def maxPageUrlAttempts_def)
  have b: "fst (constructPage c [False, False, False, False] init) = Threw FailedToVisitURL"
    by (simp add: init_def emit_def Let_def maxPageUrlAttempts_def)
  have i: "\<not> started init" by (simp add: init_def)
  from a have s: "fst (start c [False, False, False, True] init) = Done"
    "started (fst (snd (start c [False, False, False, True] init)))"
    by (simp_all add: start_def emit_def)
  obtain s1 nav1 where r: "constructPage c [False, False, False, False] init = (Threw FailedToVisitURL, s1, nav1)"
    using b by (cases "constructPage c [False, False, False, False] init") auto
  then have g: "generator c fetch cycles [False, False, False, False] init
       = ([], Threw FailedToVisitURL, fst (snd (constructPage c [False, False, False, False] init)))"
    using i by (simp add: generator_def start_def)
  from a b s g show ?thesis by blast
qed

theorem C3_three_failures_are_retried_witness:
  "fst (start exampleConfig [False, False, False, True] init) = Done
   \<and> fst (constructPage exampleConfig [False, False, False, False] init) = Threw FailedToVisitURL"
  using C3_three_failures_are_retried [of exampleConfig] by simp

section \<open>A response body that does not parse\<close>

lemma baseGet_undefined: "baseGet None ks = None"
  by (cases ks) simp_all

lemma lodash_get_undefined: "lodash_get None path dflt = dflt"
  by (simp add: lodash_get_def baseGet_undefined)

lemma processResponse_parse_failure:
  "res_json res = None \<Longrightarrow>
     processResponse c res s =
       (Done, (emit [LogError ''Error processing response JSON'', LogException,
                     LogInfo ''No posts remaining''] s)\<lparr>finished := True\<rparr>)"
  by (simp add: processResponse_def rateLimited_def hasNextPage_def lodash_get_undefined emit_def)

text \<open>
  C4. A matching response whose body does not parse is logged, and then handled like a
  body without page info: \<^verbatim>\<open>data\<close> is \<^verbatim>\<open>undefined\<close>, both lookups give their
  default \<^verbatim>\<open>false\<close>, and \<open>finished\<close> is set. No post is read and nothing is
  thrown; \<open>hibernate\<close> and \<open>index\<close> stay.
\<close>

theorem C4_parse_failure_sets_finished:
  assumes "matchURL (res_url res)" and "res_json res = None" and "responseBuffer s = [res]"
  shows "fst (processResponses c s) = Done
    \<and> finished (snd (processResponses c s))
    \<and> postBuffer (snd (processResponses c s)) = postBuffer s
    \<and> index (snd (processResponses c s)) = index s
    \<and> hibernate (snd (processResponses c s)) = hibernate s
    \<and> trace (snd (processResponses c s)) =
        trace s @ [LogError ''Error processing response JSON'', LogException,
                   LogInfo ''No posts remaining'']"
  using assms
  by (simp add: processResponses_def processResponse_parse_failure emit_def)

theorem C4_parse_failure_sets_finished_witness:
  "\<not> finished (init\<lparr>responseBuffer := [\<lparr>res_url = apiURL, res_json = None\<rparr>]\<rparr>)
   \<and> finished (snd (processResponses exampleConfig
        (init\<lparr>responseBuffer := [\<lparr>res_url = apiURL, res_json = None\<rparr>]\<rparr>)))"
  using C4_parse_failure_sets_finished
    [of "\<lparr>res_url = apiURL, res_json = None\<rparr>"
        "init\<lparr>responseBuffer := [\<lparr>res_url = apiURL, res_json = None\<rparr>]\<rparr>" exampleConfig]
  by (simp add: matchURL_apiURL init_def)

section \<open>The post buffer across stop, graft and the poll loop\<close>

lemma awaitPagePromises_none: "pagePromises s = [] \<Longrightarrow> awaitPagePromises fetch s = s"
  by (cases s) (simp add: awaitPagePromises_def)

lemma stop_Done: "(fst (stop fetch s) = Done) = (page s \<and> browser s)"
  by (simp add: stop_def awaitPagePromises_def emit_def Let_def)

lemma stop_buffers:
  "postBuffer (snd (stop fetch s)) = postBuffer s @ map fetch (pagePromises s)"
  "pagePromises (snd (stop fetch s)) = []"
  "fst (stop fetch s) = Done \<Longrightarrow> requestBuffer (snd (stop fetch s)) = []"
  "fst (stop fetch s) = Done \<Longrightarrow> responseBuffer (snd (stop fetch s)) = []"
  by (simp_all add: stop_def awaitPagePromises_def emit_def Let_def split: if_splits)


lemma keeps_launch_posts: "keeps_launch postBuffer" "keeps_launch pagePromises"
  by (simp_all add: keeps_launch_def)

lemma initiateGraft_postBuffer:
  "postBuffer (fst (snd (initiateGraft c fetch nav s)))
     = (if enableGrafting c then postBuffer s @ map fetch (pagePromises s) else postBuffer s)"
  "pagePromises (fst (snd (initiateGraft c fetch nav s)))
     = (if enableGrafting c then [] else pagePromises s)"
proof -
  obtain e s1 where r: "stop fetch s = (e, s1)" by (cases "stop fetch s")
  from stop_buffers(1,2) [of fetch s] r
  have b: "postBuffer s1 = postBuffer s @ map fetch (pagePromises s)" "pagePromises s1 = []"
    by simp_all
  from r b show "postBuffer (fst (snd (initiateGraft c fetch nav s)))
     = (if enableGrafting c then postBuffer s @ map fetch (pagePromises s) else postBuffer s)"
    by (cases e) (simp_all add: initiateGraft_def start_frame [OF keeps_launch_posts(1)])
  from r b show "pagePromises (fst (snd (initiateGraft c fetch nav s)))
     = (if enableGrafting c then [] else pagePromises s)"
    by (cases e) (simp_all add: initiateGraft_def start_frame [OF keeps_launch_posts(2)])
qed

lemma stimulate_postBuffer:
  assumes "pagePromises s = []"
  shows "postBuffer (fst (snd (snd (stimulate c fetch nav s)))) = postBuffer s"
    and "pagePromises (fst (snd (snd (stimulate c fetch nav s)))) = []"
proof -
  define g where "g = (if jumps (jump s) mod jumpMod = 0 then initiateGraft c fetch nav (jump s)
                 else (Done, jump s, nav))"
  obtain e s6 nav1 where r: "g = (e, s6, nav1)" by (cases g) auto
  have j: "postBuffer (jump s) = postBuffer s" "pagePromises (jump s) = []"
    using assms by (simp_all add: jump_def emit_def)
  have "postBuffer (fst (snd g)) = postBuffer s \<and> pagePromises (fst (snd g)) = []"
    unfolding g_def using j by (simp add: initiateGraft_postBuffer)
  with r have o: "postBuffer s6 = postBuffer s" "pagePromises s6 = []" by simp_all
  have "postBuffer (fst (snd (snd (stimulate c fetch nav s)))) = postBuffer s
      \<and> pagePromises (fst (snd (snd (stimulate c fetch nav s)))) = []"
  proof (cases "paused s")
    case True
    with assms show ?thesis by (simp add: stimulate_def waitResume_def)
  next
    case False
    with r o show ?thesis
      by (cases e)
         (simp_all add: stimulate_def waitResume_def Let_def sleep_def emit_def g_def [symmetric])
  qed
  then show "postBuffer (fst (snd (snd (stimulate c fetch nav s)))) = postBuffer s"
    and "pagePromises (fst (snd (snd (stimulate c fetch nav s)))) = []" by simp_all
qed

lemma stimulate_flow:
  "stimulate c fetch nav s = (Done, fl, s', nav') \<Longrightarrow> (fl = Break) = (postBuffer s' \<noteq> [])"
  by (auto simp: stimulate_def Let_def split: prod.splits ending.splits if_splits)

lemma getNextBody_Done:
  assumes "getNextBody c fetch cy nav s = (Done, fl, s', nav')"
  shows "\<exists>s2. processResponses c (processRequests (deliver cy s)) = (Done, s2) \<and>
          (if finished (awaitPagePromises fetch s2)
           then fl = Break \<and> s' = (awaitPagePromises fetch s2)\<lparr>pagePromises := []\<rparr> \<and> nav' = nav
           else stimulate c fetch nav ((awaitPagePromises fetch s2)\<lparr>pagePromises := []\<rparr>)
                  = (Done, fl, s', nav'))"
proof -
  obtain e s2 where r: "processResponses c (processRequests (deliver cy s)) = (e, s2)"
    by (cases "processResponses c (processRequests (deliver cy s))")
  from assms r have e: "e = Done"
    by (cases e) (simp_all add: getNextBody_phases)
  from assms r e show ?thesis
    by (simp add: getNextBody_phases Let_def split: if_splits)
qed

lemma getNextBody_postBuffer:
  assumes "getNextBody c fetch cy nav s = (Done, fl, s', nav')"
  shows "postBuffer s' = postBuffer (awaitPagePromises fetch
            (snd (processResponses c (processRequests (deliver cy s)))))"
    and "pagePromises s' = []"
    and "postBuffer s' \<noteq> [] \<Longrightarrow> fl = Break"
proof -
  from getNextBody_Done [OF assms] obtain s2
    where r: "processResponses c (processRequests (deliver cy s)) = (Done, s2)"
    and f: "finished (awaitPagePromises fetch s2) \<Longrightarrow>
           fl = Break \<and> s' = (awaitPagePromises fetch s2)\<lparr>pagePromises := []\<rparr> \<and> nav' = nav"
    and n: "\<not> finished (awaitPagePromises fetch s2) \<Longrightarrow>
           stimulate c fetch nav ((awaitPagePromises fetch s2)\<lparr>pagePromises := []\<rparr>)
             = (Done, fl, s', nav')"
    by (auto split: if_splits)
  define s3 where "s3 = (awaitPagePromises fetch s2)\<lparr>pagePromises := []\<rparr>"
  have p3: "pagePromises s3 = []" by (simp add: s3_def)
  have b3: "postBuffer s3 = postBuffer (awaitPagePromises fetch s2)" by (simp add: s3_def)
  have "postBuffer s' = postBuffer s3 \<and> pagePromises s' = [] \<and> (postBuffer s' \<noteq> [] \<longrightarrow> fl = Break)"
  proof (cases "finished (awaitPagePromises fetch s2)")
    case True
    from f [OF True] p3 show ?thesis by (simp add: s3_def)
  next
    case False
    from n [OF False] have st: "stimulate c fetch nav s3 = (Done, fl, s', nav')"
      by (simp add: s3_def)
    from stimulate_postBuffer [OF p3, of c fetch nav] st stimulate_flow [OF st]
    show ?thesis by simp
  qed
  with b3 r show "postBuffer s' = postBuffer (awaitPagePromises fetch
            (snd (processResponses c (processRequests (deliver cy s)))))"
    and "pagePromises s' = []"
    and "postBuffer s' \<noteq> [] \<Longrightarrow> fl = Break"
    by simp_all
qed

lemma postPop_Cons: "postBuffer s = p # ps \<Longrightarrow> postPop s = (p, s\<lparr>postBuffer := ps\<rparr>)"
  by (simp add: postPop_def)

lemma postPop_Nil: "postBuffer s = [] \<Longrightarrow> postPop s = (JNull, s)"
  by (simp add: postPop_def)

lemma yieldPosts_truthy:
  "\<forall>p\<in>set (postBuffer s). truthy (Some p) \<Longrightarrow> yieldPosts s = (postBuffer s, s\<lparr>postBuffer := []\<rparr>)"
proof (induction "postBuffer s" arbitrary: s)
  case Nil
  then have b: "postBuffer s = []" by simp
  have "s\<lparr>postBuffer := []\<rparr> = s" using b by (cases s) simp
  with postPop_Nil [OF b] b show ?case by (subst yieldPosts.simps) simp
next
  case (Cons p ps)
  then have b: "postBuffer s = p # ps" by simp
  from Cons(3) b have t: "truthy (Some p)" and r: "\<forall>q\<in>set ps. truthy (Some q)"
    by simp_all
  have "yieldPosts (s\<lparr>postBuffer := ps\<rparr>) = (postBuffer (s\<lparr>postBuffer := ps\<rparr>), s\<lparr>postBuffer := ps\<rparr>\<lparr>postBuffer := []\<rparr>)"
    by (rule Cons(1)) (simp_all add: r)
  with postPop_Cons [OF b] t b show ?case
    by (subst yieldPosts.simps) simp
qed

lemma generatorLoop_step:
  assumes "getNext c fetch cycles nav s = (Done, s1, cycles1, nav1)"
    and "yieldPosts s1 = (posts, s2)"
  shows "generatorLoop c fetch cycles nav s =
     (if finished s2 then (posts, Done, s2)
      else (posts @ fst (generatorLoop c fetch cycles1 nav1 s2),
            snd (generatorLoop c fetch cycles1 nav1 s2)))"
  by (subst generatorLoop.simps) (simp add: assms case_prod_unfold Let_def)

lemma generatorLoop_stops:
  assumes "getNext c fetch cycles nav s = (e, s1, cycles1, nav1)" and "e \<noteq> Done"
  shows "generatorLoop c fetch cycles nav s = ([], e, s1)"
  using assms by (subst generatorLoop.simps) (cases e; simp)

lemma generatorLoop_yields_buffer:
  assumes "getNextBody c fetch cy nav s = (Done, Break, s', nav')"
    and "\<forall>p\<in>set (postBuffer s'). truthy (Some p)"
  shows "prefix (postBuffer s') (fst (generatorLoop c fetch (cy # cys) nav s))"
proof -
  from assms(1) have g: "getNext c fetch (cy # cys) nav s = (Done, s', cys, nav')" by simp
  note y = yieldPosts_truthy [OF assms(2)]
  show ?thesis
    by (simp add: generatorLoop_step [OF g y])
qed

section \<open>The graft flag\<close>

lemma fold_interceptRequest:
  "fold interceptRequest rs s = s\<lparr>requestBuffer := requestBuffer s @ rs\<rparr>"
  by (induction rs arbitrary: s) (simp_all add: interceptRequest_def)

lemma fold_interceptResponse:
  "fold interceptResponse rs s = s\<lparr>responseBuffer := responseBuffer s @ rs\<rparr>"
  by (induction rs arbitrary: s) (simp_all add: interceptResponse_def)

lemma deliver_eq:
  "deliver cy s = s\<lparr>requestBuffer := requestBuffer s @ newRequests cy,
                     responseBuffer := responseBuffer s @ newResponses cy\<rparr>"
  by (simp add: deliver_def fold_interceptRequest fold_interceptResponse)

lemma requestsLoop_frame:
  "keeps_requests obs \<Longrightarrow> obs (requestsLoop reqs s) = obs s"
  by (induction reqs arbitrary: s) (simp_all add: keeps_requests_def emit_def)

lemma processRequests_frame:
  assumes "keeps_requests obs"
  shows "obs (processRequests s) = obs s"
proof -
  from assms have "\<And>s a. obs (s\<lparr>requestBuffer := a\<rparr>) = obs s"
    by (simp add: keeps_requests_def)
  then show ?thesis
    by (simp add: processRequests_def requestsLoop_frame [OF assms])
qed

lemma keeps_requests_fields:
  "keeps_requests graft" "keeps_requests responseBuffer" "keeps_requests jumps"
  "keeps_requests finished" "keeps_requests index" "keeps_requests postIds"
  "keeps_requests postBuffer" "keeps_requests pagePromises" "keeps_requests hibernate"
  "keeps_requests paused" "keeps_requests started"
  by (simp_all add: keeps_requests_def)

lemma keeps_responses_graft: "keeps_responses graft" "keeps_responses jumps"
  by (simp_all add: keeps_responses_def keeps_posts_def)

lemma responsesLoop_disableGraft:
  "responsesLoop c rs dg s = (Done, dg', s') \<Longrightarrow> dg' = (dg \<or> anyMatching rs)"
proof (induction rs arbitrary: dg s)
  case Nil
  then show ?case by (simp add: anyMatching_def)
next
  case (Cons res rs)
  show ?case
  proof (cases "matchURL (res_url res)")
    case False
    with Cons.prems have "responsesLoop c rs dg s = (Done, dg', s')" by simp
    from Cons.IH [OF this] False show ?thesis by (simp add: anyMatching_def)
  next
    case True
    obtain e1 s1 where p: "processResponse c res s = (e1, s1)" by (cases "processResponse c res s")
    with Cons.prems True have e1: "e1 = Done" by (cases e1) simp_all
    with Cons.prems True p have "responsesLoop c rs True s1 = (Done, dg', s')" by simp
    from Cons.IH [OF this] True show ?thesis by (simp add: anyMatching_def)
  qed
qed

lemma processResponses_graft:
  "processResponses c s = (Done, s') \<Longrightarrow> graft s' = (graft s \<and> \<not> anyMatching (responseBuffer s))"
proof -
  assume a: "processResponses c s = (Done, s')"
  obtain e dg s1 where r: "responsesLoop c (responseBuffer s) False s = (e, dg, s1)"
    by (cases "responsesLoop c (responseBuffer s) False s") auto
  with a have e: "e = Done" by (cases e) (simp_all add: processResponses_def)
  from responsesLoop_disableGraft [of c "responseBuffer s" False s dg s1] r e
  have dg: "dg = anyMatching (responseBuffer s)" by simp
  from responsesLoop_frame [OF keeps_responses_graft(1), of c "responseBuffer s" False s] r
  have g: "graft s1 = graft s" by simp
  from a r e dg g show ?thesis by (auto simp: processResponses_def)
qed

lemma processResponses_graft_thrown:
  "fst (processResponses c s) \<noteq> Done \<Longrightarrow> graft (snd (processResponses c s)) = graft s"
proof -
  assume a: "fst (processResponses c s) \<noteq> Done"
  obtain e dg s1 where r: "responsesLoop c (responseBuffer s) False s = (e, dg, s1)"
    by (cases "responsesLoop c (responseBuffer s) False s") auto
  from responsesLoop_frame [OF keeps_responses_graft(1), of c "responseBuffer s" False s] r
  have g: "graft s1 = graft s" by simp
  from a r g show ?thesis by (cases e) (simp_all add: processResponses_def)
qed

lemma keeps_launch_graft: "keeps_launch graft"
  by (simp add: keeps_launch_def)

lemma stop_graft: "graft (snd (stop fetch s)) = graft s"
  by (simp add: stop_def awaitPagePromises_def emit_def Let_def)

lemma initiateGraft_graft:
  "graft (fst (snd (initiateGraft c fetch nav s)))
     = ((enableGrafting c \<and> page s \<and> browser s) \<or> graft s)"
proof -
  obtain e s1 where r: "stop fetch s = (e, s1)" by (cases "stop fetch s")
  from stop_graft [of fetch s] r have g: "graft s1 = graft s" by simp
  from stop_Done [of fetch s] r have d: "(e = Done) = (page s \<and> browser s)" by simp
  from r g d show ?thesis
    by (cases e) (auto simp: initiateGraft_def start_frame [OF keeps_launch_graft])
qed

lemma initiateGraft_Done_graft:
  assumes "initiateGraft c fetch nav s = (Done, s1, nav1)"
  shows "graft s1 = (enableGrafting c \<or> graft s)"
proof (cases "enableGrafting c")
  case False
  with assms show ?thesis by (simp add: initiateGraft_def)
next
  case True
  obtain e s0 where r: "stop fetch s = (e, s0)" by (cases "stop fetch s")
  with assms True have e: "e = Done" by (cases e) (simp_all add: initiateGraft_def)
  with stop_Done [of fetch s] r have "page s \<and> browser s" by simp
  with initiateGraft_graft [of c fetch nav s] assms True show ?thesis by simp
qed

lemma initiateGraft_disabled:
  "\<not> enableGrafting c \<Longrightarrow> initiateGraft c fetch nav s = (Done, s, nav)"
  by (simp add: initiateGraft_def)

lemma stimulate_graft:
  assumes "stimulate c fetch nav s = (Done, fl, s', nav')"
  shows "graft s' = (graft s \<or> (Suc (jumps s) mod jumpMod = 0 \<and> enableGrafting c))"
proof -
  define g where "g = (if jumps (jump s) mod jumpMod = 0 then initiateGraft c fetch nav (jump s)
                 else (Done, jump s, nav))"
  obtain e s6 nav1 where r: "g = (e, s6, nav1)" by (cases g) auto
  have j: "graft (jump s) = graft s" "jumps (jump s) = Suc (jumps s)"
    by (simp_all add: jump_def emit_def)
  from assms have np: "\<not> paused s"
    by (auto simp: stimulate_def waitResume_def split: if_splits)
  from assms np r have e: "e = Done"
    by (cases e) (simp_all add: stimulate_def waitResume_def Let_def g_def [symmetric])
  have o: "graft s6 = (graft s \<or> (Suc (jumps s) mod jumpMod = 0 \<and> enableGrafting c))"
  proof (cases "jumps (jump s) mod jumpMod = 0")
    case True
    with r e have "initiateGraft c fetch nav (jump s) = (Done, s6, nav1)" by (simp add: g_def)
    from initiateGraft_Done_graft [OF this] True j show ?thesis by auto
  next
    case False
    with r have "s6 = jump s" by (simp add: g_def)
    with False j show ?thesis by simp
  qed
  from assms np r e have "graft s' = graft s6"
    by (auto simp: stimulate_def waitResume_def Let_def sleep_def emit_def g_def [symmetric]
        split: if_splits)
  with o show ?thesis by simp
qed

lemma keeps_session_finished: "keeps_session finished" "keeps_session index" "keeps_session postIds"
  by (simp_all add: keeps_session_def keeps_launch_def)

lemma keeps_drain_jumps: "keeps_drain jumps" "keeps_drain paused" "keeps_drain started"
  by (simp_all add: keeps_drain_def keeps_responses_def keeps_posts_def)

lemma getNextBody_graft:
  assumes "getNextBody c fetch cy nav s = (Done, fl, s', nav')"
  shows "graft s' =
     ((graft s \<and> \<not> anyMatching (responseBuffer s @ newResponses cy))
      \<or> (\<not> finished s' \<and> Suc (jumps s) mod jumpMod = 0 \<and> enableGrafting c))"
proof -
  define s1 where "s1 = processRequests (deliver cy s)"
  from getNextBody_Done [OF assms] obtain s2
    where r: "processResponses c s1 = (Done, s2)"
    and f: "finished (awaitPagePromises fetch s2) \<Longrightarrow>
           fl = Break \<and> s' = (awaitPagePromises fetch s2)\<lparr>pagePromises := []\<rparr> \<and> nav' = nav"
    and n: "\<not> finished (awaitPagePromises fetch s2) \<Longrightarrow>
           stimulate c fetch nav ((awaitPagePromises fetch s2)\<lparr>pagePromises := []\<rparr>)
             = (Done, fl, s', nav')"
    by (auto simp: s1_def split: if_splits)
  have g1: "graft s1 = graft s" and rb1: "responseBuffer s1 = responseBuffer s @ newResponses cy"
    and j1: "jumps s1 = jumps s"
    by (simp_all add: s1_def processRequests_frame keeps_requests_fields deliver_eq)
  from processResponses_graft [OF r] g1 rb1
  have g2: "graft s2 = (graft s \<and> \<not> anyMatching (responseBuffer s @ newResponses cy))" by simp
  from processResponses_frame [OF keeps_drain_jumps(1), of c s1] r j1
  have j2: "jumps s2 = jumps s" by simp
  define s3 where "s3 = (awaitPagePromises fetch s2)\<lparr>pagePromises := []\<rparr>"
  have g3: "graft s3 = graft s2" and j3: "jumps s3 = jumps s" and f3: "finished s3 = finished (awaitPagePromises fetch s2)"
    by (simp_all add: s3_def awaitPagePromises_def j2)
  show ?thesis
  proof (cases "finished (awaitPagePromises fetch s2)")
    case True
    from f [OF True] have "s' = s3" by (simp add: s3_def)
    with True f3 g3 g2 show ?thesis by simp
  next
    case False
    from n [OF False] have st: "stimulate c fetch nav s3 = (Done, fl, s', nav')"
      by (simp add: s3_def)
    from stimulate_frame [OF keeps_session_finished(1), of c fetch nav s3] st False f3
    have nf: "\<not> finished s'" by simp
    from stimulate_graft [OF st] g3 g2 j3 nf show ?thesis by auto
  qed
qed

lemma rateLimited_failBody: "rateLimited (Some failBody) = Inr True"
  by (simp add: rateLimited_def failBody_def)

lemma processResponse_rateLimited:
  assumes "rateLimited (res_json res) = Inr True"
  shows "processResponse c res s = (Done, (emit [LogInfo ''Rate limited''] s)\<lparr>hibernate := True\<rparr>)"
proof -
  from assms obtain d where "res_json res = Some d"
    by (cases "res_json res") (simp_all add: rateLimited_def)
  with assms show ?thesis by (simp add: processResponse_def)
qed

lemma processResponses_fail_only:
  assumes "responseBuffer s = [failResponse]"
  shows "processResponses c s =
     (Done, (if graft s then (emit [LogInfo ''Rate limited''] s)\<lparr>hibernate := True, graft := False\<rparr>
             else (emit [LogInfo ''Rate limited''] s)\<lparr>hibernate := True\<rparr>)\<lparr>responseBuffer := []\<rparr>)"
proof -
  have m: "matchURL (res_url failResponse)" by (simp add: failResponse_def matchURL_apiURL)
  have "rateLimited (res_json failResponse) = Inr True"
    by (simp add: failResponse_def rateLimited_failBody)
  note p = processResponse_rateLimited [OF this, of c s]
  from assms m p show ?thesis
    by (simp add: processResponses_def emit_def)
qed

text \<open>
  C6, as the code has it. A drain cycle that completes clears \<open>graft\<close> exactly when
  the response buffer held a response whose URL matches, whether or not that response
  parsed, was rate limited or gave any record; a drain cycle that throws leaves the
  flag. \<^verbatim>\<open>initiateGraft\<close> sets the flag when grafting is enabled (and the page and
  browser exist, so that its \<^verbatim>\<open>stop\<close> returns) and does nothing when grafting is
  disabled. After an iteration of \<^verbatim>\<open>getNext\<close> the flag is set exactly when a graft
  was initiated in that iteration, or it was set before and no response with a matching
  URL was drained. A fresh session has it false.
\<close>

theorem C6_graft_interval:
  "(processResponses c s = (Done, s') \<longrightarrow>
      graft s' = (graft s \<and> \<not> anyMatching (responseBuffer s)))
   \<and> (fst (processResponses c s) \<noteq> Done \<longrightarrow> graft (snd (processResponses c s)) = graft s)
   \<and> graft (fst (snd (initiateGraft c fetch nav s)))
       = ((enableGrafting c \<and> page s \<and> browser s) \<or> graft s)
   \<and> (\<not> enableGrafting c \<longrightarrow> initiateGraft c fetch nav s = (Done, s, nav))
   \<and> (getNextBody c fetch cy nav s = (Done, fl, s2, nav') \<longrightarrow>
        graft s2 =
          ((graft s \<and> \<not> anyMatching (responseBuffer s @ newResponses cy))
           \<or> (\<not> finished s2 \<and> Suc (jumps s) mod jumpMod = 0 \<and> enableGrafting c)))
   \<and> \<not> graft init"
proof -
  have a: "processResponses c s = (Done, s') \<longrightarrow>
      graft s' = (graft s \<and> \<not> anyMatching (responseBuffer s))"
    using processResponses_graft [of c s s'] by blast
  have b: "fst (processResponses c s) \<noteq> Done \<longrightarrow> graft (snd (processResponses c s)) = graft s"
    using processResponses_graft_thrown [of c s] by blast
  note d = initiateGraft_graft [of c fetch nav s]
  have e: "\<not> enableGrafting c \<longrightarrow> initiateGraft c fetch nav s = (Done, s, nav)"
    using initiateGraft_disabled [of c fetch nav s] by blast
  have f: "getNextBody c fetch cy nav s = (Done, fl, s2, nav') \<longrightarrow>
        graft s2 =
          ((graft s \<and> \<not> anyMatching (responseBuffer s @ newResponses cy))
           \<or> (\<not> finished s2 \<and> Suc (jumps s) mod jumpMod = 0 \<and> enableGrafting c))"
    using getNextBody_graft [of c fetch cy nav s fl s2 nav'] by blast
  have g: "\<not> graft init" by (simp add: init_def)
  from a b d e f g show ?thesis by blast
qed

theorem C6_graft_interval_witness:
  "processResponses exampleConfig (init\<lparr>graft := True, responseBuffer := [failResponse]\<rparr>)
     = (Done, init\<lparr>hibernate := True, trace := [LogInfo ''Rate limited'']\<rparr>)
   \<and> graft (init\<lparr>hibernate := True, trace := [LogInfo ''Rate limited'']\<rparr>)
       = (graft (init\<lparr>graft := True, responseBuffer := [failResponse]\<rparr>)
          \<and> \<not> anyMatching (responseBuffer (init\<lparr>graft := True, responseBuffer := [failResponse]\<rparr>)))"
proof -
  have p: "processResponses exampleConfig (init\<lparr>graft := True, responseBuffer := [failResponse]\<rparr>)
     = (Done, init\<lparr>hibernate := True, trace := [LogInfo ''Rate limited'']\<rparr>)"
    by (simp add: processResponses_fail_only) (simp add: init_def emit_def)
  from C6_graft_interval
         [of exampleConfig "init\<lparr>graft := True, responseBuffer := [failResponse]\<rparr>"
             "init\<lparr>hibernate := True, trace := [LogInfo ''Rate limited'']\<rparr>"] p
  show ?thesis by blast
qed

text \<open>
  The claim as stated fails: with \<open>graft\<close> set, a drain cycle whose only matching
  response is rate limited extracts nothing (no post buffered, \<open>index\<close> still 0) and
  yet clears the flag.
\<close>

theorem C6_cleared_without_extraction:
  "graft (init\<lparr>graft := True, responseBuffer := [failResponse]\<rparr>)
   \<and> fst (processResponses exampleConfig (init\<lparr>graft := True, responseBuffer := [failResponse]\<rparr>))
       = Done
   \<and> \<not> graft (snd (processResponses exampleConfig
                     (init\<lparr>graft := True, responseBuffer := [failResponse]\<rparr>)))
   \<and> postBuffer (snd (processResponses exampleConfig
                     (init\<lparr>graft := True, responseBuffer := [failResponse]\<rparr>))) = []
   \<and> index (snd (processResponses exampleConfig
                     (init\<lparr>graft := True, responseBuffer := [failResponse]\<rparr>))) = 0"
  by (simp add: processResponses_fail_only) (simp add: init_def emit_def)

section \<open>Rate limiting and hibernation\<close>

lemma keeps_posts_hibernate: "keeps_posts hibernate"
  by (simp add: keeps_posts_def)

lemma processResponse_hibernate:
  "hibernate (snd (processResponse c res s)) = (hibernate s \<or> rateLimited (res_json res) = Inr True)"
proof (cases "rateLimited (res_json res)")
  case (Inl e)
  then show ?thesis by (simp add: processResponse_def Let_def emit_def)
next
  case (Inr b)
  show ?thesis
  proof (cases b)
    case True
    with Inr show ?thesis by (simp add: processResponse_rateLimited emit_def)
  next
    case False
    with Inr show ?thesis
      by (simp add: processResponse_def Let_def emit_def processPosts_frame [OF keeps_posts_hibernate]
          split: sum.splits)
  qed
qed

lemma responsesLoop_hibernate:
  "responsesLoop c rs dg s = (Done, dg', s') \<Longrightarrow> hibernate s' = (hibernate s \<or> anyRateLimited rs)"
proof (induction rs arbitrary: dg s)
  case Nil
  then show ?case by (simp add: anyRateLimited_def)
next
  case (Cons res rs)
  show ?case
  proof (cases "matchURL (res_url res)")
    case False
    with Cons.prems have "responsesLoop c rs dg s = (Done, dg', s')" by simp
    from Cons.IH [OF this] False show ?thesis by (simp add: anyRateLimited_def)
  next
    case True
    obtain e1 s1 where p: "processResponse c res s = (e1, s1)" by (cases "processResponse c res s")
    with Cons.prems True have e1: "e1 = Done" by (cases e1) simp_all
    with Cons.prems True p have "responsesLoop c rs True s1 = (Done, dg', s')" by simp
    from Cons.IH [OF this] processResponse_hibernate [of c res s] p True
    show ?thesis by (auto simp: anyRateLimited_def)
  qed
qed

lemma processResponses_hibernate:
  assumes "processResponses c s = (Done, s')"
  shows "hibernate s' = (hibernate s \<or> anyRateLimited (responseBuffer s))"
proof -
  obtain e dg s1 where r: "responsesLoop c (responseBuffer s) False s = (e, dg, s1)"
    by (cases "responsesLoop c (responseBuffer s) False s") auto
  with assms have e: "e = Done" by (cases e) (simp_all add: processResponses_def)
  from responsesLoop_hibernate [of c "responseBuffer s" False s dg s1] r e
  have h: "hibernate s1 = (hibernate s \<or> anyRateLimited (responseBuffer s))" by simp
  from assms r e have "hibernate s' = hibernate s1"
    by (auto simp: processResponses_def split: if_splits)
  with h show ?thesis by simp
qed

lemma keeps_launch_hibernate: "keeps_launch hibernate"
  by (simp add: keeps_launch_def)

lemma stop_hibernate: "hibernate (snd (stop fetch s)) = hibernate s"
  by (simp add: stop_def awaitPagePromises_def emit_def Let_def)

lemma initiateGraft_hibernate:
  "hibernate (fst (snd (initiateGraft c fetch nav s))) = hibernate s"
proof -
  obtain e s1 where r: "stop fetch s = (e, s1)" by (cases "stop fetch s")
  from stop_hibernate [of fetch s] r have "hibernate s1 = hibernate s" by simp
  with r show ?thesis
    by (cases e) (simp_all add: initiateGraft_def start_frame [OF keeps_launch_hibernate])
qed

lemma start_Done_trace:
  "start c nav s = (Done, s1, nav1) \<Longrightarrow> \<exists>pre. trace s1 = pre @ [Listen]"
  by (auto simp: start_def emit_def split: prod.splits ending.splits)

lemma initiateGraft_Done_trace:
  assumes "initiateGraft c fetch nav s = (Done, s1, nav1)" and "\<exists>pre. trace s = pre @ [Jump]"
  shows "\<exists>pre ev. trace s1 = pre @ [ev] \<and> (ev = Jump \<or> ev = Listen)"
proof (cases "enableGrafting c")
  case False
  with assms show ?thesis by (auto simp: initiateGraft_def)
next
  case True
  obtain e s0 where r: "stop fetch s = (e, s0)" by (cases "stop fetch s")
  with assms(1) True have e: "e = Done" by (cases e) (simp_all add: initiateGraft_def)
  with assms(1) True r have "start c nav (s0\<lparr>graft := True\<rparr>) = (Done, s1, nav1)"
    by (simp add: initiateGraft_def)
  from start_Done_trace [OF this] show ?thesis by blast
qed

lemma stimulate_sleeps:
  assumes "stimulate c fetch nav s = (Done, fl, s', nav')"
  shows "\<exists>s6 pre ev. hibernate s6 = hibernate s \<and> trace s6 = pre @ [ev] \<and> (ev = Jump \<or> ev = Listen) \<and>
           s' = (if hibernate s
                 then (sleep (hibernationTime c) (sleep (sleepTime c) s6))\<lparr>hibernate := False\<rparr>
                 else sleep (sleepTime c) s6)"
proof -
  define g where "g = (if jumps (jump s) mod jumpMod = 0 then initiateGraft c fetch nav (jump s)
                 else (Done, jump s, nav))"
  obtain e s6 nav1 where r: "g = (e, s6, nav1)" by (cases g) auto
  from assms have np: "\<not> paused s"
    by (auto simp: stimulate_def waitResume_def split: if_splits)
  from assms np r have e: "e = Done"
    by (cases e) (simp_all add: stimulate_def waitResume_def Let_def g_def [symmetric])
  have jt: "\<exists>pre. trace (jump s) = pre @ [Jump]" by (simp add: jump_def emit_def)
  have jh: "hibernate (jump s) = hibernate s" by (simp add: jump_def emit_def)
  have h6: "hibernate s6 = hibernate s"
  proof -
    have "hibernate (fst (snd g)) = hibernate s"
      unfolding g_def using jh by (simp add: initiateGraft_hibernate)
    with r show ?thesis by simp
  qed
  have t6: "\<exists>pre ev. trace s6 = pre @ [ev] \<and> (ev = Jump \<or> ev = Listen)"
  proof (cases "jumps (jump s) mod jumpMod = 0")
    case True
    with r e have "initiateGraft c fetch nav (jump s) = (Done, s6, nav1)" by (simp add: g_def)
    from initiateGraft_Done_trace [OF this jt] show ?thesis .
  next
    case False
    with r have "s6 = jump s" by (simp add: g_def)
    with jt show ?thesis by blast
  qed
  have hs: "hibernate (sleep (sleepTime c) s6) = hibernate s6" by (simp add: sleep_def emit_def)
  from assms np r e hs h6 have
    "s' = (if hibernate s
           then (sleep (hibernationTime c) (sleep (sleepTime c) s6))\<lparr>hibernate := False\<rparr>
           else sleep (sleepTime c) s6)"
    by (simp add: stimulate_def waitResume_def Let_def g_def [symmetric])
  with h6 t6 show ?thesis by blast
qed

lemma getNextBody_hibernates:
  assumes "getNextBody c fetch cy nav s = (Done, fl, s', nav')" and "\<not> finished s'"
  shows "\<exists>pre ev. (ev = Jump \<or> ev = Listen) \<and>
           (if hibernate s \<or> anyRateLimited (responseBuffer s @ newResponses cy)
            then \<not> hibernate s' \<and> trace s' = pre @ [ev, Sleep (sleepTime c), Sleep (hibernationTime c)]
            else \<not> hibernate s' \<and> trace s' = pre @ [ev, Sleep (sleepTime c)])"
proof -
  define s1 where "s1 = processRequests (deliver cy s)"
  from getNextBody_Done [OF assms(1)] obtain s2
    where r: "processResponses c s1 = (Done, s2)"
    and f: "finished (awaitPagePromises fetch s2) \<Longrightarrow>
           fl = Break \<and> s' = (awaitPagePromises fetch s2)\<lparr>pagePromises := []\<rparr> \<and> nav' = nav"
    and n: "\<not> finished (awaitPagePromises fetch s2) \<Longrightarrow>
           stimulate c fetch nav ((awaitPagePromises fetch s2)\<lparr>pagePromises := []\<rparr>)
             = (Done, fl, s', nav')"
    by (auto simp: s1_def split: if_splits)
  have h1: "hibernate s1 = hibernate s" and rb1: "responseBuffer s1 = responseBuffer s @ newResponses cy"
    by (simp_all add: s1_def processRequests_frame keeps_requests_fields deliver_eq)
  from processResponses_hibernate [OF r] h1 rb1
  have h2: "hibernate s2 = (hibernate s \<or> anyRateLimited (responseBuffer s @ newResponses cy))"
    by simp
  define s3 where "s3 = (awaitPagePromises fetch s2)\<lparr>pagePromises := []\<rparr>"
  have h3: "hibernate s3 = hibernate s2" by (simp add: s3_def awaitPagePromises_def)
  have nf: "\<not> finished (awaitPagePromises fetch s2)"
  proof
    assume a: "finished (awaitPagePromises fetch s2)"
    from f [OF a] a have "finished s'" by simp
    with assms(2) show False by simp
  qed
  from n [OF nf] have st: "stimulate c fetch nav s3 = (Done, fl, s', nav')" by (simp add: s3_def)
  from stimulate_sleeps [OF st] obtain s6 pre ev
    where h6: "hibernate s6 = hibernate s3" and t6: "trace s6 = pre @ [ev]"
      and ev: "ev = Jump \<or> ev = Listen"
      and s': "s' = (if hibernate s3
                 then (sleep (hibernationTime c) (sleep (sleepTime c) s6))\<lparr>hibernate := False\<rparr>
                 else sleep (sleepTime c) s6)"
    by blast
  show ?thesis
  proof (cases "hibernate s3")
    case True
    with s' t6 have "\<not> hibernate s' \<and> trace s' = pre @ [ev, Sleep (sleepTime c), Sleep (hibernationTime c)]"
      by (simp add: sleep_def emit_def)
    with True h3 h2 ev show ?thesis by auto
  next
    case False
    with s' t6 h6 have "\<not> hibernate s' \<and> trace s' = pre @ [ev, Sleep (sleepTime c)]"
      by (simp add: sleep_def emit_def)
    with False h3 h2 ev show ?thesis by auto
  qed
qed

lemma getNextBody_finished:
  assumes "getNextBody c fetch cy nav s = (Done, fl, s', nav')" and "finished s'"
  shows "fl = Break \<and>
     s' = (awaitPagePromises fetch (snd (processResponses c (processRequests (deliver cy s)))))
            \<lparr>pagePromises := []\<rparr>"
proof -
  from getNextBody_Done [OF assms(1)] obtain s2
    where r: "processResponses c (processRequests (deliver cy s)) = (Done, s2)"
    and f: "finished (awaitPagePromises fetch s2) \<Longrightarrow>
           fl = Break \<and> s' = (awaitPagePromises fetch s2)\<lparr>pagePromises := []\<rparr> \<and> nav' = nav"
    and n: "\<not> finished (awaitPagePromises fetch s2) \<Longrightarrow>
           stimulate c fetch nav ((awaitPagePromises fetch s2)\<lparr>pagePromises := []\<rparr>)
             = (Done, fl, s', nav')"
    by (auto split: if_splits)
  define s3 where "s3 = (awaitPagePromises fetch s2)\<lparr>pagePromises := []\<rparr>"
  have f3: "finished s3 = finished (awaitPagePromises fetch s2)" by (simp add: s3_def)
  show ?thesis
  proof (cases "finished (awaitPagePromises fetch s2)")
    case True
    from f [OF True] r show ?thesis by simp
  next
    case False
    from n [OF False] have st: "stimulate c fetch nav s3 = (Done, fl, s', nav')" by (simp add: s3_def)
    from stimulate_frame [OF keeps_session_finished(1), of c fetch nav s3] st False f3 assms(2)
    show ?thesis by simp
  qed
qed

lemma split_dots_nonempty: "split_dots acc cs \<noteq> []"
  by (induction cs arbitrary: acc) simp_all

lemma lodash_get_empty_object: "lodash_get (Some (JObj [])) path dflt = dflt"
proof -
  obtain k ks where "split_dots [] path = k # ks"
    using split_dots_nonempty [of "[]" path] by (cases "split_dots [] path") auto
  then show ?thesis by (simp add: lodash_get_def baseGet_undefined)
qed

lemma processResponse_emptyResponse:
  "processResponse c emptyResponse s
     = (Done, (emit [LogInfo ''No posts remaining''] s)\<lparr>finished := True\<rparr>)"
  by (simp add: processResponse_def emptyResponse_def rateLimited_def hasNextPage_def
      lodash_get_empty_object)

lemma processResponses_fail_then_empty:
  assumes "responseBuffer s = [failResponse, emptyResponse]" and "\<not> graft s"
  shows "processResponses c s =
     (Done, s\<lparr>hibernate := True, finished := True, responseBuffer := [],
              trace := trace s @ [LogInfo ''Rate limited'', LogInfo ''No posts remaining'']\<rparr>)"
proof -
  have m: "matchURL (res_url failResponse)" "matchURL (res_url emptyResponse)"
    by (simp_all add: failResponse_def emptyResponse_def matchURL_apiURL)
  have "rateLimited (res_json failResponse) = Inr True"
    by (simp add: failResponse_def rateLimited_failBody)
  note p = processResponse_rateLimited [OF this]
  from assms m show ?thesis
    by (simp add: processResponses_def p processResponse_emptyResponse emit_def)
qed

lemma getNextBody_fail_batch:
  "getNextBody exampleConfig (\<lambda>sc. JNull) \<lparr>newRequests = [], newResponses = [failResponse]\<rparr> [] init
     = (Done, Again,
        init\<lparr>jumps := 1, trace := [LogInfo ''Rate limited'', Jump, Sleep 2, Sleep 1200]\<rparr>, [])"
proof -
  define s1 where "s1 = processRequests (deliver \<lparr>newRequests = [], newResponses = [failResponse]\<rparr> init)"
  have s1: "s1 = init\<lparr>responseBuffer := [failResponse]\<rparr>"
    by (simp add: s1_def deliver_eq processRequests_def init_def)
  have rb: "responseBuffer s1 = [failResponse]" by (simp add: s1)
  have p: "processResponses exampleConfig s1
     = (Done, init\<lparr>hibernate := True, trace := [LogInfo ''Rate limited'']\<rparr>)"
    by (simp add: processResponses_fail_only [OF rb]) (simp add: s1 init_def emit_def)
  show ?thesis
    by (simp add: getNextBody_phases s1_def [symmetric] p Let_def awaitPagePromises_def)
       (simp add: stimulate_def waitResume_def jump_def jumpMod_def sleep_def emit_def Let_def
          init_def exampleConfig_def)
qed

lemma getNextBody_fail_then_empty_batch:
  assumes "\<not> graft s" and "requestBuffer s = []" and "responseBuffer s = []" and "pagePromises s = []"
  shows "getNextBody c fetch \<lparr>newRequests = [], newResponses = [failResponse, emptyResponse]\<rparr> nav s
     = (Done, Break,
        s\<lparr>requestBuffer := [], responseBuffer := [], pagePromises := [],
          hibernate := True, finished := True,
          trace := trace s @ [LogInfo ''Rate limited'', LogInfo ''No posts remaining'']\<rparr>, nav)"
proof -
  define s1 where
    "s1 = processRequests (deliver \<lparr>newRequests = [], newResponses = [failResponse, emptyResponse]\<rparr> s)"
  have s1: "s1 = s\<lparr>requestBuffer := [], responseBuffer := [failResponse, emptyResponse]\<rparr>"
    using assms(2,3) by (simp add: s1_def deliver_eq processRequests_def)
  have rb: "responseBuffer s1 = [failResponse, emptyResponse]" and g: "\<not> graft s1"
    using assms(1) by (simp_all add: s1)
  note p = processResponses_fail_then_empty [OF rb g, of c]
  from assms(4) show ?thesis
    by (simp add: getNextBody_phases s1_def [symmetric] p Let_def awaitPagePromises_def)
       (simp add: s1)
qed

text \<open>
  C7, as the code has it. A response whose body is an object with \<^verbatim>\<open>status\<close> equal
  to \<^verbatim>\<open>"fail"\<close> only logs and sets \<open>hibernate\<close>: no post is read and
  \<open>finished\<close> is not touched. When a matching response of that kind was drained in
  an iteration of \<^verbatim>\<open>getNext\<close> and the iteration does not end on \<open>finished\<close>, the
  same iteration ends with the regular sleep followed by one sleep of
  \<open>hibernationTime\<close>, and the flag is cleared; an iteration that starts with the
  flag clear and drains no such response ends with the regular sleep alone. When the
  drain sets \<open>finished\<close> the iteration returns at once with the state the drain left:
  no sleep, and the flag as it was set.
\<close>

theorem C7_hibernation_after_rate_limit:
  "rateLimited (Some (JObj kvs)) = Inr (map_of kvs ''status'' = Some (JStr ''fail''))
   \<and> (rateLimited (res_json res) = Inr True \<longrightarrow>
        processResponse c res s = (Done, (emit [LogInfo ''Rate limited''] s)\<lparr>hibernate := True\<rparr>))
   \<and> (getNextBody c fetch cy nav s = (Done, fl, s', nav') \<and> \<not> finished s'
        \<and> anyRateLimited (responseBuffer s @ newResponses cy) \<longrightarrow>
        \<not> hibernate s' \<and>
        (\<exists>pre ev. (ev = Jump \<or> ev = Listen) \<and>
           trace s' = pre @ [ev, Sleep (sleepTime c), Sleep (hibernationTime c)]))
   \<and> (getNextBody c fetch cy nav s = (Done, fl, s', nav') \<and> \<not> finished s'
        \<and> \<not> hibernate s \<and> \<not> anyRateLimited (responseBuffer s @ newResponses cy) \<longrightarrow>
        \<not> hibernate s' \<and>
        (\<exists>pre ev. (ev = Jump \<or> ev = Listen) \<and> trace s' = pre @ [ev, Sleep (sleepTime c)]))
   \<and> (getNextBody c fetch cy nav s = (Done, fl, s', nav') \<and> finished s' \<longrightarrow>
        fl = Break \<and>
        s' = (awaitPagePromises fetch (snd (processResponses c (processRequests (deliver cy s)))))
               \<lparr>pagePromises := []\<rparr>)"
proof -
  have a: "rateLimited (Some (JObj kvs)) = Inr (map_of kvs ''status'' = Some (JStr ''fail''))"
    by (simp add: rateLimited_def)
  have b: "rateLimited (res_json res) = Inr True \<longrightarrow>
        processResponse c res s = (Done, (emit [LogInfo ''Rate limited''] s)\<lparr>hibernate := True\<rparr>)"
    using processResponse_rateLimited [of res c s] by blast
  have d: "getNextBody c fetch cy nav s = (Done, fl, s', nav') \<and> \<not> finished s'
        \<and> anyRateLimited (responseBuffer s @ newResponses cy) \<longrightarrow>
        \<not> hibernate s' \<and>
        (\<exists>pre ev. (ev = Jump \<or> ev = Listen) \<and>
           trace s' = pre @ [ev, Sleep (sleepTime c), Sleep (hibernationTime c)])"
  proof
    assume h: "getNextBody c fetch cy nav s = (Done, fl, s', nav') \<and> \<not> finished s'
        \<and> anyRateLimited (responseBuffer s @ newResponses cy)"
    then have g: "getNextBody c fetch cy nav s = (Done, fl, s', nav')" and nf: "\<not> finished s'"
      and rl: "anyRateLimited (responseBuffer s @ newResponses cy)" by simp_all
    from getNextBody_hibernates [OF g nf] rl
    show "\<not> hibernate s' \<and>
        (\<exists>pre ev. (ev = Jump \<or> ev = Listen) \<and>
           trace s' = pre @ [ev, Sleep (sleepTime c), Sleep (hibernationTime c)])"
      by auto
  qed
  have e: "getNextBody c fetch cy nav s = (Done, fl, s', nav') \<and> \<not> finished s'
        \<and> \<not> hibernate s \<and> \<not> anyRateLimited (responseBuffer s @ newResponses cy) \<longrightarrow>
        \<not> hibernate s' \<and>
        (\<exists>pre ev. (ev = Jump \<or> ev = Listen) \<and> trace s' = pre @ [ev, Sleep (sleepTime c)])"
  proof
    assume h: "getNextBody c fetch cy nav s = (Done, fl, s', nav') \<and> \<not> finished s'
        \<and> \<not> hibernate s \<and> \<not> anyRateLimited (responseBuffer s @ newResponses cy)"
    then have g: "getNextBody c fetch cy nav s = (Done, fl, s', nav')" and nf: "\<not> finished s'"
      and nh: "\<not> hibernate s" and rl: "\<not> anyRateLimited (responseBuffer s @ newResponses cy)"
      by simp_all
    from getNextBody_hibernates [OF g nf] nh rl
    show "\<not> hibernate s' \<and>
        (\<exists>pre ev. (ev = Jump \<or> ev = Listen) \<and> trace s' = pre @ [ev, Sleep (sleepTime c)])"
      by auto
  qed
  have f: "getNextBody c fetch cy nav s = (Done, fl, s', nav') \<and> finished s' \<longrightarrow>
        fl = Break \<and>
        s' = (awaitPagePromises fetch (snd (processResponses c (processRequests (deliver cy s)))))
               \<lparr>pagePromises := []\<rparr>"
    using getNextBody_finished [of c fetch cy nav s fl s' nav'] by blast
  from a b d e f show ?thesis by blast
qed

theorem C7_hibernation_after_rate_limit_witness:
  "getNextBody exampleConfig (\<lambda>sc. JNull) \<lparr>newRequests = [], newResponses = [failResponse]\<rparr> [] init
     = (Done, Again,
        init\<lparr>jumps := 1, trace := [LogInfo ''Rate limited'', Jump, Sleep 2, Sleep 1200]\<rparr>, [])
   \<and> anyRateLimited (responseBuffer init @ [failResponse])
   \<and> \<not> hibernate (init\<lparr>jumps := 1, trace := [LogInfo ''Rate limited'', Jump, Sleep 2, Sleep 1200]\<rparr>)
   \<and> (\<exists>pre ev. (ev = Jump \<or> ev = Listen) \<and>
         trace (init\<lparr>jumps := 1, trace := [LogInfo ''Rate limited'', Jump, Sleep 2, Sleep 1200]\<rparr>)
           = pre @ [ev, Sleep (sleepTime exampleConfig), Sleep (hibernationTime exampleConfig)])"
proof -
  note g = getNextBody_fail_batch
  have nf: "\<not> finished (init\<lparr>jumps := 1, trace := [LogInfo ''Rate limited'', Jump, Sleep 2, Sleep 1200]\<rparr>)"
    by (simp add: init_def)
  have rl: "anyRateLimited (responseBuffer init @ newResponses \<lparr>newRequests = [], newResponses = [failResponse]\<rparr>)"
    by (simp add: anyRateLimited_def failResponse_def matchURL_apiURL rateLimited_failBody)
  from C7_hibernation_after_rate_limit
         [where c = exampleConfig and fetch = "\<lambda>sc. JNull"
            and cy = "\<lparr>newRequests = [], newResponses = [failResponse]\<rparr>"
            and nav = "[]" and s = init and fl = Again and nav' = "[]"
            and s' = "init\<lparr>jumps := 1, trace := [LogInfo ''Rate limited'', Jump, Sleep 2, Sleep 1200]\<rparr>"]
       g nf rl
  show ?thesis by simp
qed

text \<open>
  The claim as stated fails: a rate-limited response drained together with a response
  that ends the pagination sets \<open>hibernate\<close>, and the engine then returns from
  \<^verbatim>\<open>getNext\<close> and ends the generator without any sleep, the flag still set.
\<close>

theorem C7_no_hibernation_when_finished:
  "getNextBody exampleConfig (\<lambda>sc. JNull)
      \<lparr>newRequests = [], newResponses = [failResponse, emptyResponse]\<rparr> [] init
     = (Done, Break,
        init\<lparr>hibernate := True, finished := True,
             trace := [LogInfo ''Rate limited'', LogInfo ''No posts remaining'']\<rparr>, [])
   \<and> generator exampleConfig (\<lambda>sc. JNull)
        [\<lparr>newRequests = [], newResponses = [failResponse, emptyResponse]\<rparr>] [True] init
     = ([], Done,
        init\<lparr>browser := True, page := True, hibernate := True, finished := True,
             started := True,
             trace := [Launch, NewPage, Goto (url exampleConfig), Listen,
                       LogInfo ''Rate limited'', LogInfo ''No posts remaining'',
                       ClosePage, CloseBrowser]\<rparr>)"
proof -
  have a: "getNextBody exampleConfig (\<lambda>sc. JNull)
      \<lparr>newRequests = [], newResponses = [failResponse, emptyResponse]\<rparr> [] init
     = (Done, Break,
        init\<lparr>hibernate := True, finished := True,
             trace := [LogInfo ''Rate limited'', LogInfo ''No posts remaining'']\<rparr>, [])"
    by (simp add: getNextBody_fail_then_empty_batch init_def)
  define s1 where "s1 = init\<lparr>browser := True, page := True, started := True,
                             trace := [Launch, NewPage, Goto (url exampleConfig), Listen]\<rparr>"
  have st: "start exampleConfig [True] init = (Done, s1, [])"
    by (simp add: start_def s1_def init_def emit_def)
  define s2 where "s2 = s1\<lparr>requestBuffer := [], responseBuffer := [], pagePromises := [],
          hibernate := True, finished := True,
          trace := trace s1 @ [LogInfo ''Rate limited'', LogInfo ''No posts remaining'']\<rparr>"
  have "getNextBody exampleConfig (\<lambda>sc. JNull)
      \<lparr>newRequests = [], newResponses = [failResponse, emptyResponse]\<rparr> [] s1 = (Done, Break, s2, [])"
    unfolding s2_def
    by (rule getNextBody_fail_then_empty_batch) (simp_all add: s1_def init_def)
  then have gn: "getNext exampleConfig (\<lambda>sc. JNull)
      [\<lparr>newRequests = [], newResponses = [failResponse, emptyResponse]\<rparr>] [] s1 = (Done, s2, [], [])"
    by simp
  have pb: "postBuffer s2 = []" by (simp add: s2_def s1_def init_def)
  have y: "yieldPosts s2 = ([], s2)"
    using yieldPosts_truthy [of s2] pb by (cases s2) simp
  have fin: "finished s2" by (simp add: s2_def)
  have gl: "generatorLoop exampleConfig (\<lambda>sc. JNull)
      [\<lparr>newRequests = [], newResponses = [failResponse, emptyResponse]\<rparr>] [] s1 = ([], Done, s2)"
    by (simp add: generatorLoop_step [OF gn y] fin)
  have ns: "\<not> started init" by (simp add: init_def)
  have b: "generator exampleConfig (\<lambda>sc. JNull)
        [\<lparr>newRequests = [], newResponses = [failResponse, emptyResponse]\<rparr>] [True] init
     = (case stop (\<lambda>sc. JNull) s2 of (e, s3) \<Rightarrow> ([], e, s3))"
    by (simp add: generator_def ns st gl)
  have "stop (\<lambda>sc. JNull) s2 = (Done, init\<lparr>browser := True, page := True, hibernate := True,
             finished := True, started := True,
             trace := [Launch, NewPage, Goto (url exampleConfig), Listen,
                       LogInfo ''Rate limited'', LogInfo ''No posts remaining'',
                       ClosePage, CloseBrowser]\<rparr>)"
    by (simp add: stop_def awaitPagePromises_def emit_def Let_def s2_def s1_def init_def)
  with a b show ?thesis by simp
qed

section \<open>Invariants of the poll loop and the generator\<close>

lemma keeps_control_requests: "keeps_control obs \<Longrightarrow> keeps_requests obs"
  by (simp add: keeps_control_def keeps_requests_def)

lemma keeps_control_launch: "keeps_control obs \<Longrightarrow> keeps_launch obs"
  by (simp add: keeps_control_def keeps_launch_def)

lemma deliver_control:
  "keeps_control obs \<Longrightarrow> obs (processRequests (deliver cy s)) = obs s"
  by (simp add: processRequests_frame [OF keeps_control_requests] deliver_eq)
     (simp add: keeps_control_def)

lemma await_idem: "(awaitPagePromises fetch s)\<lparr>pagePromises := []\<rparr> = awaitPagePromises fetch s"
  by (simp add: awaitPagePromises_def)

text \<open>A property of the state kept by the loop over the posts is kept by a drain cycle.\<close>

lemma processResponse_steps:
  "processResponse c res s =
     (case rateLimited (res_json res) of
        Inl e \<Rightarrow> (Threw e, afterParse res s)
      | Inr True \<Rightarrow> (Done, (emit [LogInfo ''Rate limited''] (afterParse res s))\<lparr>hibernate := True\<rparr>)
      | Inr False \<Rightarrow>
          (case iterate (lodash_get (res_json res) (edgeQuery c) (JArr [])) of
             Inl e \<Rightarrow> (Threw e, afterPageInfo c res s)
           | Inr posts \<Rightarrow> processPosts c posts (afterPageInfo c res s)))"
  unfolding processResponse_def afterParse_def afterPageInfo_def Let_def by (rule refl)

lemma processResponse_invariant:
  assumes k: "keeps_control P"
    and f: "\<And>s. P s \<Longrightarrow> P (s\<lparr>finished := True\<rparr>)"
    and p: "\<And>posts s. P s \<Longrightarrow> P (snd (processPosts c posts s))"
    and "P s"
  shows "P (snd (processResponse c res s))"
proof -
  from k have t: "\<And>s a. P (s\<lparr>trace := a\<rparr>) = P s" and h: "\<And>s a. P (s\<lparr>hibernate := a\<rparr>) = P s"
    by (simp_all add: keeps_control_def)
  have p1: "P (afterParse res s)" using \<open>P s\<close> by (simp add: afterParse_def emit_def t)
  have p2: "P (afterPageInfo c res s)"
    using p1 f [of "emit [LogInfo ''No posts remaining''] (afterParse res s)"]
    by (simp add: afterPageInfo_def emit_def t)
  have p3: "P ((emit [LogInfo ''Rate limited''] (afterParse res s))\<lparr>hibernate := True\<rparr>)"
    using p1 by (simp add: emit_def t h)
  show ?thesis
  proof (cases "rateLimited (res_json res)")
    case (Inl e)
    with p1 show ?thesis by (simp add: processResponse_steps)
  next
    case (Inr b)
    show ?thesis
    proof (cases b)
      case True
      with Inr p3 show ?thesis by (simp add: processResponse_steps)
    next
      case False
      show ?thesis
      proof (cases "iterate (lodash_get (res_json res) (edgeQuery c) (JArr []))")
        case (Inl e)
        with Inr False p2 show ?thesis by (simp add: processResponse_steps)
      next
        case (Inr posts)
        with \<open>rateLimited (res_json res) = Inr b\<close> False p [OF p2, of posts]
        show ?thesis by (simp add: processResponse_steps)
      qed
    qed
  qed
qed

lemma responsesLoop_invariant:
  assumes k: "keeps_control P"
    and f: "\<And>s. P s \<Longrightarrow> P (s\<lparr>finished := True\<rparr>)"
    and p: "\<And>posts s. P s \<Longrightarrow> P (snd (processPosts c posts s))"
  shows "P s \<Longrightarrow> P (snd (snd (responsesLoop c rs dg s)))"
proof (induction rs arbitrary: dg s)
  case Nil
  then show ?case by simp
next
  case (Cons res rs)
  show ?case
  proof (cases "matchURL (res_url res)")
    case False
    with Cons show ?thesis by simp
  next
    case True
    obtain e1 s1 where r: "processResponse c res s = (e1, s1)" by (cases "processResponse c res s")
    from processResponse_invariant [of P c s res, OF k f p Cons.prems] r have p1: "P s1" by simp
    show ?thesis
    proof (cases e1)
      case Done
      with True r have "responsesLoop c (res # rs) dg s = responsesLoop c rs True s1" by simp
      with Cons.IH [OF p1, of True] show ?thesis by simp
    next
      case (Threw x)
      with True r p1 show ?thesis by simp
    next
      case Pending
      with True r p1 show ?thesis by simp
    qed
  qed
qed

lemma processResponses_invariant:
  assumes k: "keeps_control P"
    and f: "\<And>s. P s \<Longrightarrow> P (s\<lparr>finished := True\<rparr>)"
    and p: "\<And>posts s. P s \<Longrightarrow> P (snd (processPosts c posts s))"
    and "P s"
  shows "P (snd (processResponses c s))"
proof -
  from k have g: "\<And>s a. P (s\<lparr>graft := a\<rparr>) = P s" and rb: "\<And>s a. P (s\<lparr>responseBuffer := a\<rparr>) = P s"
    by (simp_all add: keeps_control_def)
  obtain e dg s1 where r: "responsesLoop c (responseBuffer s) False s = (e, dg, s1)"
    by (cases "responsesLoop c (responseBuffer s) False s") auto
  from responsesLoop_invariant [of P c s "responseBuffer s" False, OF k f p \<open>P s\<close>] r
  have "P s1" by simp
  with r show ?thesis by (cases e) (simp_all add: processResponses_def g rb)
qed

lemma stop_invariant:
  assumes k: "keeps_control P" and a: "\<And>s. P s \<Longrightarrow> P (awaitPagePromises fetch s)" and "P s"
  shows "P (snd (stop fetch s))"
proof -
  from k have u: "\<And>s a. P (s\<lparr>trace := a\<rparr>) = P s" "\<And>s a. P (s\<lparr>requestBuffer := a\<rparr>) = P s"
    "\<And>s a. P (s\<lparr>responseBuffer := a\<rparr>) = P s"
    by (simp_all add: keeps_control_def)
  from a [OF \<open>P s\<close>] show ?thesis by (simp add: stop_def Let_def emit_def u)
qed

lemma initiateGraft_invariant:
  assumes k: "keeps_control P" and a: "\<And>s. P s \<Longrightarrow> P (awaitPagePromises fetch s)" and "P s"
  shows "P (fst (snd (initiateGraft c fetch nav s)))"
proof -
  from k have g: "\<And>s a. P (s\<lparr>graft := a\<rparr>) = P s" by (simp add: keeps_control_def)
  obtain e s1 where r: "stop fetch s = (e, s1)" by (cases "stop fetch s")
  from stop_invariant [of P fetch s, OF k a \<open>P s\<close>] r have "P s1" by simp
  with r \<open>P s\<close> show ?thesis
    by (cases e) (simp_all add: initiateGraft_def start_frame [OF keeps_control_launch [OF k]] g)
qed

lemma stimulate_invariant:
  assumes k: "keeps_control P" and a: "\<And>s. P s \<Longrightarrow> P (awaitPagePromises fetch s)" and "P s"
  shows "P (fst (snd (snd (stimulate c fetch nav s))))"
proof -
  from k have u: "\<And>s a. P (s\<lparr>trace := a\<rparr>) = P s"
    "\<And>s a. P (s\<lparr>jumps := a\<rparr>) = P s" "\<And>s a. P (s\<lparr>hibernate := a\<rparr>) = P s"
    by (simp_all add: keeps_control_def)
  show ?thesis
  proof (cases "paused s")
    case True
    with \<open>P s\<close> show ?thesis by (simp add: stimulate_def waitResume_def)
  next
    case False
    have j: "P (jump s)" using \<open>P s\<close> by (simp add: jump_def emit_def u)
    define g where "g = (if jumps (jump s) mod jumpMod = 0 then initiateGraft c fetch nav (jump s)
                 else (Done, jump s, nav))"
    obtain e s6 nav1 where r: "g = (e, s6, nav1)" by (cases g) auto
    have "P (fst (snd g))"
      unfolding g_def using initiateGraft_invariant [of P fetch "jump s" c nav, OF k a j] j by simp
    with r have o: "P s6" by simp
    from False r o show ?thesis
      by (cases e) (simp_all add: stimulate_def waitResume_def Let_def sleep_def emit_def u g_def [symmetric])
  qed
qed

lemma getNextBody_invariant:
  assumes k: "keeps_control P"
    and f: "\<And>s. P s \<Longrightarrow> P (s\<lparr>finished := True\<rparr>)"
    and p: "\<And>posts s. P s \<Longrightarrow> P (snd (processPosts c posts s))"
    and a: "\<And>s. P s \<Longrightarrow> P (awaitPagePromises fetch s)"
    and "P s"
  shows "P (fst (snd (snd (getNextBody c fetch cy nav s))))"
proof -
  define s1 where "s1 = processRequests (deliver cy s)"
  have p1: "P s1" using \<open>P s\<close> by (simp add: s1_def deliver_control [OF k])
  obtain e s2 where r: "processResponses c s1 = (e, s2)" by (cases "processResponses c s1")
  from processResponses_invariant [of P c s1, OF k f p p1] r have p2: "P s2" by simp
  from a [OF p2] have p3: "P (awaitPagePromises fetch s2)" .
  from stimulate_invariant [of P fetch "awaitPagePromises fetch s2" c nav, OF k a p3]
  have p4: "P (fst (snd (snd (stimulate c fetch nav (awaitPagePromises fetch s2)))))" .
  from r p2 p3 p4 show ?thesis
    by (cases e) (simp_all add: getNextBody_phases s1_def [symmetric] Let_def await_idem)
qed

lemma getNext_invariant:
  assumes k: "keeps_control P"
    and f: "\<And>s. P s \<Longrightarrow> P (s\<lparr>finished := True\<rparr>)"
    and p: "\<And>posts s. P s \<Longrightarrow> P (snd (processPosts c posts s))"
    and a: "\<And>s. P s \<Longrightarrow> P (awaitPagePromises fetch s)"
  shows "P s \<Longrightarrow> P (fst (snd (getNext c fetch cycles nav s)))"
proof (induction cycles arbitrary: nav s)
  case Nil
  then show ?case by simp
next
  case (Cons cy cys)
  obtain e fl s1 nav1 where r: "getNextBody c fetch cy nav s = (e, fl, s1, nav1)"
    by (cases "getNextBody c fetch cy nav s") auto
  from getNextBody_invariant [of P c fetch s cy nav, OF k f p a Cons.prems] r have p1: "P s1" by simp
  show ?case
  proof (cases "e = Done \<and> fl = Again")
    case True
    with r have "getNext c fetch (cy # cys) nav s = getNext c fetch cys nav1 s1" by simp
    with Cons.IH [OF p1, of nav1] show ?thesis by simp
  next
    case False
    with r have "getNext c fetch (cy # cys) nav s = (e, s1, cys, nav1)"
      by (cases e; cases fl) simp_all
    with p1 show ?thesis by simp
  qed
qed

section \<open>The loop over the posts: dedup, count and cap\<close>

lemma post_id_node: "postNode post = Inr node \<Longrightarrow> post_id post = js_prop node ''id''"
  by (simp add: post_id_def)

lemma postNode_truthy: "postNode post = Inr node \<Longrightarrow> truthy (Some post)"
  by (cases post) (simp_all add: postNode_def)

lemma dedup_snoc:
  assumes "dedup ps S" and "\<not> (is_primitive v \<and> v \<in> S)" and "post_id p = v"
  shows "dedup (ps @ [p]) (insert v S)"
  using assms by (auto simp: dedup_def)

lemma dedup_mono: "dedup ps S \<Longrightarrow> dedup ps (insert v S)"
  by (auto simp: dedup_def)

lemma dedup_drop: "dedup (xs @ d @ ys) S \<Longrightarrow> dedup (xs @ ys) S"
  by (auto simp: dedup_def)

lemma processPosts_dedupInv:
  assumes "\<not> fullAPI c"
  shows "dedupInv out s \<Longrightarrow> dedupInv out (snd (processPosts c posts s))"
proof (induction posts arbitrary: s)
  case Nil
  then show ?case by simp
next
  case (Cons post posts)
  show ?case
  proof (cases "postNode post")
    case (Inl e)
    with Cons.prems show ?thesis by simp
  next
    case (Inr node)
    define v where "v = js_prop node ''id''"
    define s1 where "s1 = s\<lparr>postIds := snd (add v (postIds s))\<rparr>"
    from Cons.prems have pp: "pagePromises s = []"
      and d: "dedup (out @ postBuffer s) (ids (postIds s))"
      by (simp_all add: dedupInv_def)
    have i1: "dedupInv out s1"
      using pp dedup_mono [OF d, of v] by (simp add: dedupInv_def s1_def ids_add)
    show ?thesis
    proof (cases "fst (add v (postIds s))")
      case True
      have "dedupInv out (emit [LogDuplicate v] s1)"
        using i1 by (simp add: dedupInv_def emit_def)
      from Cons.IH [OF this] Inr True show ?thesis
        by (simp add: Let_def v_def [symmetric] s1_def [symmetric])
    next
      case False
      then have nc: "\<not> (is_primitive v \<and> v \<in> ids (postIds s))" by (simp add: fst_add)
      show ?thesis
      proof (cases "index s1 < total c \<or> total c = 0")
        case True
        have "dedup ((out @ postBuffer s) @ [post]) (insert v (ids (postIds s)))"
          by (rule dedup_snoc [OF d nc]) (simp add: post_id_node [OF Inr] v_def)
        then have "dedupInv out (addToPostBuffer post (s1\<lparr>index := index s1 + 1\<rparr>))"
          using pp by (simp add: dedupInv_def addToPostBuffer_def s1_def ids_add)
        from Cons.IH [OF this] Inr False True assms show ?thesis
          by (simp add: Let_def v_def [symmetric] s1_def [symmetric])
      next
        case nocap: False
        have "dedupInv out (s1\<lparr>finished := True\<rparr>)" using i1 by (simp add: dedupInv_def)
        with Inr False nocap show ?thesis
          by (simp add: Let_def v_def [symmetric] s1_def [symmetric])
      qed
    qed
  qed
qed

lemma processPosts_countInv:
  "countInv out s \<Longrightarrow> countInv out (snd (processPosts c posts s))"
proof (induction posts arbitrary: s)
  case Nil
  then show ?case by simp
next
  case (Cons post posts)
  show ?case
  proof (cases "postNode post")
    case (Inl e)
    with Cons.prems show ?thesis by simp
  next
    case (Inr node)
    define v where "v = js_prop node ''id''"
    define s1 where "s1 = s\<lparr>postIds := snd (add v (postIds s))\<rparr>"
    have i1: "countInv out s1" using Cons.prems by (simp add: countInv_def s1_def)
    show ?thesis
    proof (cases "fst (add v (postIds s))")
      case True
      have "countInv out (emit [LogDuplicate v] s1)" using i1 by (simp add: countInv_def emit_def)
      from Cons.IH [OF this] Inr True show ?thesis
        by (simp add: Let_def v_def [symmetric] s1_def [symmetric])
    next
      case False
      show ?thesis
      proof (cases "index s1 < total c \<or> total c = 0")
        case True
        define s2 where "s2 = s1\<lparr>index := index s1 + 1\<rparr>"
        have a: "countInv out (addToPostBuffer post s2)"
          using i1 by (simp add: countInv_def addToPostBuffer_def s2_def)
        have b: "countInv out (s2\<lparr>pagePromises := pagePromises s2 @ [js_prop node ''shortcode'']\<rparr>)"
          using i1 by (simp add: countInv_def s2_def)
        from Cons.IH [OF a] Cons.IH [OF b] Inr False True show ?thesis
          by (simp add: Let_def v_def [symmetric] s1_def [symmetric] s2_def [symmetric])
      next
        case nocap: False
        have "countInv out (s1\<lparr>finished := True\<rparr>)" using i1 by (simp add: countInv_def)
        with Inr False nocap show ?thesis
          by (simp add: Let_def v_def [symmetric] s1_def [symmetric])
      qed
    qed
  qed
qed

lemma processPosts_exactInv:
  "exactInv c out s \<Longrightarrow> exactInv c out (snd (processPosts c posts s))"
proof (induction posts arbitrary: s)
  case Nil
  then show ?case by simp
next
  case (Cons post posts)
  show ?case
  proof (cases "postNode post")
    case (Inl e)
    with Cons.prems show ?thesis by simp
  next
    case (Inr node)
    define v where "v = js_prop node ''id''"
    define s1 where "s1 = s\<lparr>postIds := snd (add v (postIds s))\<rparr>"
    have i1: "exactInv c out s1" using Cons.prems by (simp add: exactInv_def s1_def)
    show ?thesis
    proof (cases "fst (add v (postIds s))")
      case True
      have "exactInv c out (emit [LogDuplicate v] s1)" using i1 by (simp add: exactInv_def emit_def)
      from Cons.IH [OF this] Inr True show ?thesis
        by (simp add: Let_def v_def [symmetric] s1_def [symmetric])
    next
      case False
      show ?thesis
      proof (cases "index s1 < total c \<or> total c = 0")
        case True
        define s2 where "s2 = s1\<lparr>index := index s1 + 1\<rparr>"
        show ?thesis
        proof (cases "fullAPI c")
          case full: True
          have "exactInv c out (s2\<lparr>pagePromises := pagePromises s2 @ [js_prop node ''shortcode'']\<rparr>)"
            using i1 full by (simp add: exactInv_def s2_def)
          from Cons.IH [OF this] Inr False True full show ?thesis
            by (simp add: Let_def v_def [symmetric] s1_def [symmetric] s2_def [symmetric])
        next
          case direct: False
          have "exactInv c out (addToPostBuffer post s2)"
            using i1 direct postNode_truthy [OF Inr]
            by (auto simp: exactInv_def addToPostBuffer_def s2_def)
          from Cons.IH [OF this] Inr False True direct show ?thesis
            by (simp add: Let_def v_def [symmetric] s1_def [symmetric] s2_def [symmetric])
        qed
      next
        case nocap: False
        have "exactInv c out (s1\<lparr>finished := True\<rparr>)" using i1 by (simp add: exactInv_def)
        with Inr False nocap show ?thesis
          by (simp add: Let_def v_def [symmetric] s1_def [symmetric])
      qed
    qed
  qed
qed

lemma card_insert_int: "finite A \<Longrightarrow> int (card (insert v A)) \<le> int (card A) + 1"
  by (simp add: card_insert_if)

lemma processPosts_capInv:
  assumes "0 < total c"
  shows "capInv c s \<Longrightarrow> capInv c (snd (processPosts c posts s))"
proof (induction posts arbitrary: s)
  case Nil
  then show ?case by simp
next
  case (Cons post posts)
  show ?case
  proof (cases "postNode post")
    case (Inl e)
    with Cons.prems show ?thesis by simp
  next
    case (Inr node)
    define v where "v = js_prop node ''id''"
    define s1 where "s1 = s\<lparr>postIds := snd (add v (postIds s))\<rparr>"
    from Cons.prems have fin: "finite (ids (postIds s))" and le: "index s \<le> total c"
      and a: "index s = total c \<or> int (card (ids (postIds s))) \<le> index s"
      and b: "finished s \<or> int (card (ids (postIds s))) \<le> index s"
      by (simp_all add: capInv_def)
    have ids1: "ids (postIds s1) = insert v (ids (postIds s))" by (simp add: s1_def ids_add)
    have f1: "finite (ids (postIds s1))" using fin by (simp add: ids1)
    note c1 = card_insert_int [OF fin, of v]
    show ?thesis
    proof (cases "fst (add v (postIds s))")
      case True
      then have "v \<in> ids (postIds s)" by (simp add: fst_add)
      then have "ids (postIds s1) = ids (postIds s)" by (auto simp: ids1)
      with Cons.prems have "capInv c (emit [LogDuplicate v] s1)"
        by (simp add: capInv_def emit_def s1_def)
      from Cons.IH [OF this] Inr True show ?thesis
        by (simp add: Let_def v_def [symmetric] s1_def [symmetric])
    next
      case False
      show ?thesis
      proof (cases "index s1 < total c \<or> total c = 0")
        case True
        with assms have lt: "index s < total c" by (simp add: s1_def)
        with a have ca: "int (card (ids (postIds s))) \<le> index s" by simp
        define s2 where "s2 = s1\<lparr>index := index s1 + 1\<rparr>"
        have "capInv c s2"
          using f1 lt ca c1 by (simp add: capInv_def s2_def ids1) (simp add: s1_def)
        then have x: "capInv c (addToPostBuffer post s2)"
          and y: "capInv c (s2\<lparr>pagePromises := pagePromises s2 @ [js_prop node ''shortcode'']\<rparr>)"
          by (simp_all add: capInv_def addToPostBuffer_def)
        from Cons.IH [OF x] Cons.IH [OF y] Inr False True show ?thesis
          by (simp add: Let_def v_def [symmetric] s1_def [symmetric] s2_def [symmetric])
      next
        case nocap: False
        with le have eq: "index s = total c" by (simp add: s1_def)
        have "capInv c (s1\<lparr>finished := True\<rparr>)"
          using f1 eq by (simp add: capInv_def) (simp add: s1_def)
        with Inr False nocap show ?thesis
          by (simp add: Let_def v_def [symmetric] s1_def [symmetric])
      qed
    qed
  qed
qed

section \<open>The generator: what it yields\<close>

lemma yieldPosts_split:
  "\<exists>dropped. postBuffer s = fst (yieldPosts s) @ dropped @ postBuffer (snd (yieldPosts s)) \<and>
     snd (yieldPosts s) = s\<lparr>postBuffer := postBuffer (snd (yieldPosts s))\<rparr>"
proof (induction "postBuffer s" arbitrary: s)
  case Nil
  then have b: "postBuffer s = []" by simp
  have "yieldPosts s = ([], s)"
    using postPop_Nil [OF b] by (subst yieldPosts.simps) simp
  with b show ?case by simp
next
  case (Cons p ps)
  then have b: "postBuffer s = p # ps" by simp
  note pop = postPop_Cons [OF b]
  define s1 where "s1 = s\<lparr>postBuffer := ps\<rparr>"
  show ?case
  proof (cases "truthy (Some p)")
    case False
    with pop have "yieldPosts s = ([], s1)"
      by (subst yieldPosts.simps) (simp add: s1_def)
    with b show ?thesis by (simp add: s1_def)
  next
    case True
    with pop have y: "yieldPosts s = (p # fst (yieldPosts s1), snd (yieldPosts s1))"
      by (subst yieldPosts.simps) (simp add: s1_def case_prod_unfold Let_def)
    have "ps = postBuffer s1" by (simp add: s1_def)
    from Cons(1) [OF this] obtain dropped
      where d: "postBuffer s1 = fst (yieldPosts s1) @ dropped @ postBuffer (snd (yieldPosts s1))"
        and e: "snd (yieldPosts s1) = s1\<lparr>postBuffer := postBuffer (snd (yieldPosts s1))\<rparr>"
      by blast
    from d have "postBuffer s = fst (yieldPosts s) @ dropped @ postBuffer (snd (yieldPosts s))"
      by (simp add: y b s1_def)
    moreover from e have "snd (yieldPosts s) = s\<lparr>postBuffer := postBuffer (snd (yieldPosts s))\<rparr>"
      by (simp add: y s1_def)
    ultimately show ?thesis by blast
  qed
qed

lemma yieldPosts_frame:
  assumes "\<And>s a. obs (s\<lparr>postBuffer := a\<rparr>) = obs s"
  shows "obs (snd (yieldPosts s)) = obs s"
proof -
  from yieldPosts_split [of s]
  have e: "snd (yieldPosts s) = s\<lparr>postBuffer := postBuffer (snd (yieldPosts s))\<rparr>" by blast
  have "obs (snd (yieldPosts s)) = obs (s\<lparr>postBuffer := postBuffer (snd (yieldPosts s))\<rparr>)"
    using e by (rule arg_cong)
  then show ?thesis by (simp add: assms)
qed

lemma yieldPosts_dedupInv:
  assumes "dedupInv out s"
  shows "dedupInv (out @ fst (yieldPosts s)) (snd (yieldPosts s))"
proof -
  from yieldPosts_split [of s] obtain dropped
    where d: "postBuffer s = fst (yieldPosts s) @ dropped @ postBuffer (snd (yieldPosts s))"
    by blast
  have f: "pagePromises (snd (yieldPosts s)) = pagePromises s"
    "postIds (snd (yieldPosts s)) = postIds s"
    by (rule yieldPosts_frame, simp)+
  from assms d have "dedup ((out @ fst (yieldPosts s)) @ dropped @ postBuffer (snd (yieldPosts s)))
      (ids (postIds s))"
    by (simp add: dedupInv_def)
  from dedup_drop [OF this] assms f show ?thesis by (simp add: dedupInv_def)
qed

lemma yieldPosts_countInv:
  assumes "countInv out s"
  shows "countInv (out @ fst (yieldPosts s)) (snd (yieldPosts s))"
proof -
  from yieldPosts_split [of s] obtain dropped
    where d: "postBuffer s = fst (yieldPosts s) @ dropped @ postBuffer (snd (yieldPosts s))"
    by blast
  have f: "pagePromises (snd (yieldPosts s)) = pagePromises s"
    "index (snd (yieldPosts s)) = index s"
    by (rule yieldPosts_frame, simp)+
  from d have "length (postBuffer s)
      = length (fst (yieldPosts s)) + length dropped + length (postBuffer (snd (yieldPosts s)))"
    by (metis length_append add.assoc)
  with assms f show ?thesis by (simp add: countInv_def)
qed

lemma yieldPosts_exactInv:
  assumes "exactInv c out s"
  shows "exactInv c (out @ fst (yieldPosts s)) (snd (yieldPosts s))"
proof -
  from assms have t: "\<forall>p\<in>set (postBuffer s). truthy (Some p)" by (simp add: exactInv_def)
  from yieldPosts_truthy [OF t] assms show ?thesis by (simp add: exactInv_def)
qed

lemma await_exactInv:
  assumes "goodFetch c fetch" and "exactInv c out s"
  shows "exactInv c out (awaitPagePromises fetch s)"
proof (cases "fullAPI c")
  case True
  with assms(1) have "\<forall>sc. truthy (Some (fetch sc))" by (simp add: goodFetch_def)
  with assms(2) True show ?thesis by (auto simp: exactInv_def awaitPagePromises_def)
next
  case False
  with assms(2) have "pagePromises s = []" by (simp add: exactInv_def)
  from awaitPagePromises_none [OF this] assms(2) show ?thesis by simp
qed

text \<open>
  A family of properties, indexed by the posts yielded so far, that every call of
  \<^verbatim>\<open>getNext\<close> and every run of the yield loop keeps, holds along the loop of the
  generator.
\<close>

lemma generatorLoop_invariant:
  assumes step: "\<And>out s cycles nav. I out s \<Longrightarrow> I out (fst (snd (getNext c fetch cycles nav s)))"
    and yield: "\<And>out s. I out s \<Longrightarrow> I (out @ fst (yieldPosts s)) (snd (yieldPosts s))"
  shows "I out s \<Longrightarrow>
     I (out @ fst (generatorLoop c fetch cycles nav s))
       (snd (snd (generatorLoop c fetch cycles nav s)))"
proof (induction "length cycles" arbitrary: cycles nav s out rule: less_induct)
  case less
  obtain e s1 cycles1 nav1 where g: "getNext c fetch cycles nav s = (e, s1, cycles1, nav1)"
    by (cases "getNext c fetch cycles nav s") auto
  from step [OF less.prems, of cycles nav] g have i1: "I out s1" by simp
  show ?case
  proof (cases "e = Done")
    case False
    from generatorLoop_stops [OF g False] i1 show ?thesis by simp
  next
    case True
    with g have g': "getNext c fetch cycles nav s = (Done, s1, cycles1, nav1)" by simp
    obtain posts s2 where y: "yieldPosts s1 = (posts, s2)" by (cases "yieldPosts s1")
    from yield [OF i1] y have i2: "I (out @ posts) s2" by simp
    note st = generatorLoop_step [OF g' y]
    show ?thesis
    proof (cases "finished s2")
      case True
      with st i2 show ?thesis by simp
    next
      case False
      from getNext_consumes [OF g'] have "length cycles1 < length cycles" by simp
      from less.hyps [OF this i2, of nav1] st False show ?thesis by simp
    qed
  qed
qed

lemma generatorLoop_Done_finished:
  "generatorLoop c fetch cycles nav s = (out, Done, s') \<Longrightarrow> finished s'"
proof (induction "length cycles" arbitrary: cycles nav s out rule: less_induct)
  case less
  obtain e s1 cycles1 nav1 where g: "getNext c fetch cycles nav s = (e, s1, cycles1, nav1)"
    by (cases "getNext c fetch cycles nav s") auto
  show ?case
  proof (cases "e = Done")
    case False
    from generatorLoop_stops [OF g False] less.prems False show ?thesis by simp
  next
    case True
    with g have g': "getNext c fetch cycles nav s = (Done, s1, cycles1, nav1)" by simp
    obtain posts s2 where y: "yieldPosts s1 = (posts, s2)" by (cases "yieldPosts s1")
    note st = generatorLoop_step [OF g' y]
    show ?thesis
    proof (cases "finished s2")
      case True
      with st less.prems show ?thesis by simp
    next
      case False
      from getNext_consumes [OF g'] have l: "length cycles1 < length cycles" by simp
      obtain out1 e1 s3 where r: "generatorLoop c fetch cycles1 nav1 s2 = (out1, e1, s3)"
        by (cases "generatorLoop c fetch cycles1 nav1 s2") auto
      with st False less.prems have "e1 = Done" "s3 = s'" by simp_all
      with less.hyps [OF l, of nav1 s2 out1] r show ?thesis by simp
    qed
  qed
qed

section \<open>Example runs\<close>

lemma examplePage_lookups:
  "rateLimited (Some (examplePage posts nxt)) = Inr False"
  "hasNextPage exampleConfig (Some (examplePage posts nxt)) = nxt"
  "iterate (lodash_get (Some (examplePage posts nxt)) (edgeQuery exampleConfig) (JArr [])) = Inr posts"
  by (simp_all add: rateLimited_def hasNextPage_def lodash_get_def examplePage_def exampleConfig_def)

lemma processResponse_page:
  "processResponse exampleConfig (pageResponse posts nxt) s =
     processPosts exampleConfig posts
       (if nxt then s else (emit [LogInfo ''No posts remaining''] s)\<lparr>finished := True\<rparr>)"
  by (simp add: processResponse_steps pageResponse_def examplePage_lookups afterPageInfo_def
      afterParse_def)

lemma matchURL_pageResponse: "matchURL (res_url (pageResponse posts nxt))"
  by (simp add: pageResponse_def matchURL_apiURL)

lemma keeps_posts_graft: "keeps_posts graft"
  by (simp add: keeps_posts_def)

lemma processResponses_page:
  assumes "responseBuffer s = [pageResponse posts nxt]" and "\<not> graft s"
    and "processPosts exampleConfig posts
           (if nxt then s else (emit [LogInfo ''No posts remaining''] s)\<lparr>finished := True\<rparr>)
         = (Done, s2)"
  shows "processResponses exampleConfig s = (Done, s2\<lparr>responseBuffer := []\<rparr>)"
proof -
  from processPosts_frame [OF keeps_posts_graft, of exampleConfig posts
      "if nxt then s else (emit [LogInfo ''No posts remaining''] s)\<lparr>finished := True\<rparr>"]
    assms(2,3)
  have "\<not> graft s2" by (simp add: emit_def split: if_splits)
  with assms show ?thesis
    by (simp add: processResponses_def matchURL_pageResponse processResponse_page)
qed

lemma processPosts_duplicate_example:
  "processPosts exampleConfig
     [examplePost ''1'' ''a'', examplePost ''1'' ''z'', examplePost ''2'' ''b'']
     (init\<lparr>browser := True, page := True, started := True, finished := True,
           responseBuffer := rb, trace := tr\<rparr>)
   = (Done, init\<lparr>browser := True, page := True, started := True, finished := True,
                 responseBuffer := rb,
                 postBuffer := [examplePost ''1'' ''a'', examplePost ''2'' ''b''],
                 postIds := \<lparr>ids = {str_id ''2'', str_id ''1''}\<rparr>, index := 2,
                 trace := tr @ [LogDuplicate (str_id ''1'')]\<rparr>)"
  by (simp add: init_def exampleConfig_def examplePost_def postNode_def add_def has_def Let_def
      addToPostBuffer_def emit_def str_id_def)

lemma start_init: "start c [True] init = (Done, startState c, [])"
  by (simp add: start_def startState_def init_def emit_def)

lemma startState_fields:
  "requestBuffer (startState c) = []" "responseBuffer (startState c) = []"
  "pagePromises (startState c) = []" "postBuffer (startState c) = []"
  "\<not> graft (startState c)" "\<not> paused (startState c)" "\<not> hibernate (startState c)"
  "jumps (startState c) = 0" "\<not> finished (startState c)" "index (startState c) = 0"
  "started (startState c)" "page (startState c)" "browser (startState c)"
  by (simp_all add: startState_def init_def)

lemma drain_startState:
  "processRequests (deliver \<lparr>newRequests = [], newResponses = rs\<rparr> (startState c))
     = (startState c)\<lparr>responseBuffer := rs\<rparr>"
  by (simp add: deliver_eq processRequests_def startState_def init_def)

text \<open>
  A run of the generator on one poll cycle whose drain leaves the session finished: the
  buffered posts are yielded and the generator stops.
\<close>

lemma generator_one_cycle_finished:
  assumes r: "processResponses c ((startState c)\<lparr>responseBuffer := rs\<rparr>) = (Done, s2)"
    and f: "finished s2" and pp: "pagePromises s2 = []"
    and tr: "\<forall>p\<in>set (postBuffer s2). truthy (Some p)"
  shows "generator c fetch [\<lparr>newRequests = [], newResponses = rs\<rparr>] [True] init
     = (case stop fetch (s2\<lparr>postBuffer := []\<rparr>) of (e, s3) \<Rightarrow> (postBuffer s2, e, s3))"
proof -
  note a2 = awaitPagePromises_none [OF pp, of fetch]
  have a: "s2\<lparr>pagePromises := []\<rparr> = s2"
    using pp by (cases s2) simp
  have b: "getNextBody c fetch \<lparr>newRequests = [], newResponses = rs\<rparr> [] (startState c)
      = (Done, Break, s2, [])"
    by (simp add: getNextBody_phases drain_startState r Let_def a a2 f)
  then have g: "getNext c fetch [\<lparr>newRequests = [], newResponses = rs\<rparr>] [] (startState c)
      = (Done, s2, [], [])" by simp
  note y = yieldPosts_truthy [OF tr]
  have l: "generatorLoop c fetch [\<lparr>newRequests = [], newResponses = rs\<rparr>] [] (startState c)
      = (postBuffer s2, Done, s2\<lparr>postBuffer := []\<rparr>)"
    by (simp add: generatorLoop_step [OF g y] f)
  have ns: "\<not> started init" by (simp add: init_def)
  show ?thesis by (simp add: generator_def ns start_init l)
qed

text \<open>
  A run on one poll cycle whose drain buffers posts without finishing: the posts are
  yielded, and the generator is back in \<^verbatim>\<open>getNext\<close> when the cycles end.
\<close>

lemma generator_one_cycle_unfinished:
  assumes r: "processResponses c ((startState c)\<lparr>responseBuffer := rs\<rparr>) = (Done, s2)"
    and f: "\<not> finished s2" and pp: "pagePromises s2 = []"
    and tr: "\<forall>p\<in>set (postBuffer s2). truthy (Some p)" and ne: "postBuffer s2 \<noteq> []"
    and nr: "\<not> anyRateLimited rs"
  shows "generator c fetch [\<lparr>newRequests = [], newResponses = rs\<rparr>] [True] init
     = (postBuffer s2, Pending, (sleep (sleepTime c) (jump s2))\<lparr>postBuffer := []\<rparr>)"
proof -
  have k: "keeps_drain paused" "keeps_drain jumps"
    by (simp_all add: keeps_drain_def keeps_responses_def keeps_posts_def)
  from processResponses_frame [OF k(1), of c "(startState c)\<lparr>responseBuffer := rs\<rparr>"] r
  have np: "\<not> paused s2" by (simp add: startState_fields)
  from processResponses_frame [OF k(2), of c "(startState c)\<lparr>responseBuffer := rs\<rparr>"] r
  have j: "jumps s2 = 0" by (simp add: startState_fields)
  from processResponses_hibernate [OF r] nr
  have h: "\<not> hibernate s2" by (simp add: startState_fields)
  note a2 = awaitPagePromises_none [OF pp, of fetch]
  have a: "s2\<lparr>pagePromises := []\<rparr> = s2"
    using pp by (cases s2) simp
  define s3 where "s3 = sleep (sleepTime c) (jump s2)"
  have st: "stimulate c fetch [] s2 = (Done, Break, s3, [])"
    using np j h ne
    by (simp add: stimulate_def waitResume_def Let_def jumpMod_def s3_def)
       (simp add: jump_def sleep_def emit_def)
  have b: "getNextBody c fetch \<lparr>newRequests = [], newResponses = rs\<rparr> [] (startState c)
      = (Done, Break, s3, [])"
    by (simp add: getNextBody_phases drain_startState r Let_def a a2 f st)
  then have g: "getNext c fetch [\<lparr>newRequests = [], newResponses = rs\<rparr>] [] (startState c)
      = (Done, s3, [], [])" by simp
  have pb3: "postBuffer s3 = postBuffer s2" and f3: "\<not> finished s3"
    using f by (simp_all add: s3_def jump_def sleep_def emit_def)
  from tr pb3 have tr3: "\<forall>p\<in>set (postBuffer s3). truthy (Some p)" by simp
  note y = yieldPosts_truthy [OF tr3]
  have gp: "getNext c fetch [] [] (s3\<lparr>postBuffer := []\<rparr>) = (Pending, s3\<lparr>postBuffer := []\<rparr>, [], [])"
    by simp
  have np2: "Pending \<noteq> Done" by simp
  have f4: "\<not> finished (s3\<lparr>postBuffer := []\<rparr>)" using f3 by simp
  have l: "generatorLoop c fetch [\<lparr>newRequests = [], newResponses = rs\<rparr>] [] (startState c)
      = (postBuffer s2, Pending, s3\<lparr>postBuffer := []\<rparr>)"
    by (simp add: generatorLoop_step [OF g y] f4 generatorLoop_stops [OF gp np2] pb3)
  have ns: "\<not> started init" by (simp add: init_def)
  show ?thesis by (simp add: generator_def ns start_init l s3_def)
qed

section \<open>Invariants along the generator\<close>

lemma generator_invariant:
  assumes k: "\<And>out. keeps_control (I out)"
    and f: "\<And>out s. I out s \<Longrightarrow> I out (s\<lparr>finished := True\<rparr>)"
    and p: "\<And>out posts s. I out s \<Longrightarrow> I out (snd (processPosts c posts s))"
    and a: "\<And>out s. I out s \<Longrightarrow> I out (awaitPagePromises fetch s)"
    and y: "\<And>out s. I out s \<Longrightarrow> I (out @ fst (yieldPosts s)) (snd (yieldPosts s))"
    and i: "I [] s"
  shows "I (fst (generator c fetch cycles nav s)) (snd (snd (generator c fetch cycles nav s)))"
proof -
  have step: "\<And>out s cycles nav. I out s \<Longrightarrow> I out (fst (snd (getNext c fetch cycles nav s)))"
    by (rule getNext_invariant [OF k f p a])
  define r where "r = (if \<not> started s then start c nav s else (Done, s, nav))"
  obtain e s1 nav1 where r: "r = (e, s1, nav1)" by (cases r) auto
  have "I [] (fst (snd r))"
    unfolding r_def using i start_frame [OF keeps_control_launch [OF k], of "[]" c nav s] by simp
  with r have i1: "I [] s1" by simp
  show ?thesis
  proof (cases "e = Done")
    case False
    with r i1 show ?thesis
      by (cases e) (simp_all add: generator_def r_def [symmetric])
  next
    case True
    obtain out e2 s2 where l: "generatorLoop c fetch cycles nav1 s1 = (out, e2, s2)"
      by (cases "generatorLoop c fetch cycles nav1 s1") auto
    from generatorLoop_invariant [of I c fetch "[]" s1 cycles nav1, OF step y i1] l
    have i2: "I out s2" by simp
    show ?thesis
    proof (cases "e2 = Done")
      case False
      with True r l i2 show ?thesis
        by (cases e2) (simp_all add: generator_def r_def [symmetric])
    next
      case d: True
      from stop_invariant [of "I out" fetch s2, OF k a i2] have "I out (snd (stop fetch s2))" .
      with True d r l show ?thesis
        by (simp add: generator_def r_def [symmetric] case_prod_unfold)
    qed
  qed
qed

lemma generator_Done_finished:
  assumes "generator c fetch cycles nav s = (out, Done, s')"
  shows "finished s'"
proof -
  define r where "r = (if \<not> started s then start c nav s else (Done, s, nav))"
  obtain e s1 nav1 where r: "r = (e, s1, nav1)" by (cases r) auto
  from assms r have e: "e = Done" by (cases e) (simp_all add: generator_def r_def [symmetric])
  obtain out2 e2 s2 where l: "generatorLoop c fetch cycles nav1 s1 = (out2, e2, s2)"
    by (cases "generatorLoop c fetch cycles nav1 s1") auto
  from assms r e l have e2: "e2 = Done" by (cases e2) (simp_all add: generator_def r_def [symmetric])
  from generatorLoop_Done_finished [of c fetch cycles nav1 s1 out2 s2] l e2 have "finished s2" by simp
  moreover from assms r e l e2 have "s' = snd (stop fetch s2)"
    by (simp add: generator_def r_def [symmetric] case_prod_unfold)
  ultimately show ?thesis by (simp add: stop_frame [OF keeps_session_finished(1)])
qed

lemma keeps_control_invs:
  "keeps_control (dedupInv out)" "keeps_control (countInv out)" "keeps_control (exactInv c out)"
  "keeps_control (capInv c)"
  by (simp_all add: keeps_control_def dedupInv_def countInv_def exactInv_def capInv_def)

lemma generator_dedupInv:
  assumes "\<not> fullAPI c" and "dedupInv [] s"
  shows "dedupInv (fst (generator c fetch cycles nav s)) (snd (snd (generator c fetch cycles nav s)))"
proof (rule generator_invariant [where I = dedupInv])
  show "\<And>out. keeps_control (dedupInv out)" by (rule keeps_control_invs)
  show "\<And>out s. dedupInv out s \<Longrightarrow> dedupInv out (s\<lparr>finished := True\<rparr>)"
    by (simp add: dedupInv_def)
  show "\<And>out posts s. dedupInv out s \<Longrightarrow> dedupInv out (snd (processPosts c posts s))"
    by (rule processPosts_dedupInv [OF assms(1)])
  show "\<And>out s. dedupInv out s \<Longrightarrow> dedupInv out (awaitPagePromises fetch s)"
    by (simp add: dedupInv_def awaitPagePromises_def)
  show "\<And>out s. dedupInv out s \<Longrightarrow> dedupInv (out @ fst (yieldPosts s)) (snd (yieldPosts s))"
    by (rule yieldPosts_dedupInv)
  show "dedupInv [] s" by (rule assms(2))
qed

lemma generator_countInv:
  assumes "countInv [] s"
  shows "countInv (fst (generator c fetch cycles nav s)) (snd (snd (generator c fetch cycles nav s)))"
proof (rule generator_invariant [where I = countInv])
  show "\<And>out. keeps_control (countInv out)" by (rule keeps_control_invs)
  show "\<And>out s. countInv out s \<Longrightarrow> countInv out (s\<lparr>finished := True\<rparr>)"
    by (simp add: countInv_def)
  show "\<And>out posts s. countInv out s \<Longrightarrow> countInv out (snd (processPosts c posts s))"
    by (rule processPosts_countInv)
  show "\<And>out s. countInv out s \<Longrightarrow> countInv out (awaitPagePromises fetch s)"
    by (simp add: countInv_def awaitPagePromises_def)
  show "\<And>out s. countInv out s \<Longrightarrow> countInv (out @ fst (yieldPosts s)) (snd (yieldPosts s))"
    by (rule yieldPosts_countInv)
  show "countInv [] s" by (rule assms)
qed

lemma generator_exactInv:
  assumes "goodFetch c fetch" and "exactInv c [] s"
  shows "exactInv c (fst (generator c fetch cycles nav s))
           (snd (snd (generator c fetch cycles nav s)))"
proof (rule generator_invariant [where I = "exactInv c"])
  show "\<And>out. keeps_control (exactInv c out)" by (rule keeps_control_invs)
  show "\<And>out s. exactInv c out s \<Longrightarrow> exactInv c out (s\<lparr>finished := True\<rparr>)"
    by (simp add: exactInv_def)
  show "\<And>out posts s. exactInv c out s \<Longrightarrow> exactInv c out (snd (processPosts c posts s))"
    by (rule processPosts_exactInv)
  show "\<And>out s. exactInv c out s \<Longrightarrow> exactInv c out (awaitPagePromises fetch s)"
    by (rule await_exactInv [OF assms(1)])
  show "\<And>out s. exactInv c out s \<Longrightarrow> exactInv c (out @ fst (yieldPosts s)) (snd (yieldPosts s))"
    by (rule yieldPosts_exactInv)
  show "exactInv c [] s" by (rule assms(2))
qed

lemma generator_capInv:
  assumes "0 < total c" and "capInv c s"
  shows "capInv c (snd (snd (generator c fetch cycles nav s)))"
proof (rule generator_invariant [where I = "\<lambda>out. capInv c"])
  show "\<And>out. keeps_control (capInv c)" by (rule keeps_control_invs)
  show "\<And>out s. capInv c s \<Longrightarrow> capInv c (s\<lparr>finished := True\<rparr>)"
    by (simp add: capInv_def)
  show "\<And>out posts s. capInv c s \<Longrightarrow> capInv c (snd (processPosts c posts s))"
    by (rule processPosts_capInv [OF assms(1)])
  show "\<And>out s. capInv c s \<Longrightarrow> capInv c (awaitPagePromises fetch s)"
    by (simp add: capInv_def awaitPagePromises_def)
  show "\<And>out s. capInv c s \<Longrightarrow> capInv c (snd (yieldPosts s))"
  proof -
    fix out :: "json list" and s
    assume "capInv c s"
    moreover have "capInv c (snd (yieldPosts s)) = capInv c s"
      by (rule yieldPosts_frame) (simp add: capInv_def)
    ultimately show "capInv c (snd (yieldPosts s))" by simp
  qed
  show "capInv c s" by (rule assms(2))
qed

lemma init_invs: "dedupInv [] init" "countInv [] init" "exactInv c [] init" "capInv c init = (0 \<le> total c)"
  by (simp_all add: dedupInv_def dedup_def countInv_def exactInv_def capInv_def init_def)

lemma getNext_Done_no_pending:
  "getNext c fetch cycles nav s = (Done, s1, cycles1, nav1) \<Longrightarrow> pagePromises s1 = []"
proof (induction cycles arbitrary: nav s)
  case Nil
  then show ?case by simp
next
  case (Cons cy cys)
  obtain e fl s2 nav2 where r: "getNextBody c fetch cy nav s = (e, fl, s2, nav2)"
    by (cases "getNextBody c fetch cy nav s") auto
  with Cons.prems have e: "e = Done" by (cases e) simp_all
  show ?case
  proof (cases fl)
    case Break
    with Cons.prems r e have "s1 = s2" by simp
    with getNextBody_postBuffer(2) [of c fetch cy nav s fl s2 nav2] r e show ?thesis by simp
  next
    case Again
    with Cons.prems r e have "getNext c fetch cys nav2 s2 = (Done, s1, cycles1, nav1)" by simp
    from Cons.IH [OF this] show ?thesis .
  qed
qed

lemma getNext_exactInv:
  assumes "goodFetch c fetch" and "exactInv c out s"
  shows "exactInv c out (fst (snd (getNext c fetch cycles nav s)))"
proof (rule getNext_invariant [where P = "exactInv c out"])
  show "keeps_control (exactInv c out)" by (rule keeps_control_invs)
  show "\<And>s. exactInv c out s \<Longrightarrow> exactInv c out (s\<lparr>finished := True\<rparr>)"
    by (simp add: exactInv_def)
  show "\<And>posts s. exactInv c out s \<Longrightarrow> exactInv c out (snd (processPosts c posts s))"
    by (rule processPosts_exactInv)
  show "\<And>s. exactInv c out s \<Longrightarrow> exactInv c out (awaitPagePromises fetch s)"
    by (rule await_exactInv [OF assms(1)])
  show "exactInv c out s" by (rule assms(2))
qed

text \<open>
  When the loop of the generator ends normally, the post buffer is empty and no page
  visit is pending: the yield loop that ran last popped every post, all of them truthy.
\<close>

lemma generatorLoop_Done_drained:
  assumes g: "goodFetch c fetch"
  shows "exactInv c out0 s \<Longrightarrow> generatorLoop c fetch cycles nav s = (out, Done, s')
           \<Longrightarrow> postBuffer s' = [] \<and> pagePromises s' = []"
proof (induction "length cycles" arbitrary: cycles nav s out out0 rule: less_induct)
  case less
  obtain e s1 cycles1 nav1 where gn: "getNext c fetch cycles nav s = (e, s1, cycles1, nav1)"
    by (cases "getNext c fetch cycles nav s") auto
  from getNext_exactInv [OF g less.prems(1), of cycles nav] gn
  have i1: "exactInv c out0 s1" by simp
  show ?case
  proof (cases "e = Done")
    case False
    from generatorLoop_stops [OF gn False] less.prems(2) False show ?thesis by simp
  next
    case True
    with gn have g': "getNext c fetch cycles nav s = (Done, s1, cycles1, nav1)" by simp
    note np = getNext_Done_no_pending [OF g']
    from i1 have t: "\<forall>p\<in>set (postBuffer s1). truthy (Some p)" by (simp add: exactInv_def)
    note y = yieldPosts_truthy [OF t]
    note st = generatorLoop_step [OF g' y]
    show ?thesis
    proof (cases "finished s1")
      case True
      with st less.prems(2) np show ?thesis by auto
    next
      case False
      from getNext_consumes [OF g'] have l: "length cycles1 < length cycles" by simp
      from yieldPosts_exactInv [OF i1] y
      have i2: "exactInv c (out0 @ postBuffer s1) (s1\<lparr>postBuffer := []\<rparr>)" by simp
      obtain out1 e1 s3
        where r: "generatorLoop c fetch cycles1 nav1 (s1\<lparr>postBuffer := []\<rparr>) = (out1, e1, s3)"
        by (cases "generatorLoop c fetch cycles1 nav1 (s1\<lparr>postBuffer := []\<rparr>)") auto
      with st False less.prems(2) have "e1 = Done" "s3 = s'" by simp_all
      with less.hyps [OF l i2, of nav1 out1] r show ?thesis by simp
    qed
  qed
qed

lemma generator_Done_drained:
  assumes g: "goodFetch c fetch" and d: "generator c fetch cycles nav init = (out, Done, s')"
  shows "postBuffer s' = []" and "int (length out) = index s'"
proof -
  define r where "r = start c nav init"
  obtain e s1 nav1 where r: "r = (e, s1, nav1)" by (cases r) auto
  have ns: "\<not> started init" by (simp add: init_def)
  from d r ns have e: "e = Done" by (cases e) (simp_all add: generator_def r_def [symmetric])
  have "exactInv c [] (fst (snd (start c nav init)))"
    using start_frame [OF keeps_control_launch [OF keeps_control_invs(3)], of c "[]" c nav init]
      init_invs(3) [of c] by simp
  with r have i1: "exactInv c [] s1" by (simp add: r_def)
  obtain out2 e2 s2 where l: "generatorLoop c fetch cycles nav1 s1 = (out2, e2, s2)"
    by (cases "generatorLoop c fetch cycles nav1 s1") auto
  from d r e l ns have e2: "e2 = Done"
    by (cases e2) (simp_all add: generator_def r_def [symmetric])
  from generatorLoop_Done_drained [OF g i1, of cycles nav1 out2 s2] l e2
  have pb: "postBuffer s2 = []" and pp: "pagePromises s2 = []" by simp_all
  from d r e l e2 ns have s': "s' = snd (stop fetch s2)"
    by (simp add: generator_def r_def [symmetric] case_prod_unfold)
  from generator_exactInv [OF g init_invs(3), of cycles nav] d
  have x: "exactInv c out s'" by simp
  show b: "postBuffer s' = []" by (simp add: s' stop_buffers pb pp)
  have "pagePromises s' = []" by (simp add: s' stop_buffers)
  with x b show "int (length out) = index s'" by (simp add: exactInv_def)
qed




section \<open>Three runs on one page of results\<close>

lemma examplePost_truthy: "truthy (Some (examplePost i sc))"
  by (simp add: examplePost_def)

lemma post_id_examplePost: "post_id (examplePost i sc) = str_id i"
  by (simp add: post_id_def postNode_def examplePost_def str_id_def)

text \<open>
  A last page with three posts, two of them with the same id: the duplicate is logged
  and skipped, two posts are yielded and the generator returns.
\<close>

lemma run_duplicate_last_page:
  "fst (generator exampleConfig fetch
      [\<lparr>newRequests = [],
        newResponses = [pageResponse [examplePost ''1'' ''a'', examplePost ''1'' ''z'',
                                      examplePost ''2'' ''b''] False]\<rparr>] [True] init)
     = [examplePost ''1'' ''a'', examplePost ''2'' ''b'']"
  "fst (snd (generator exampleConfig fetch
      [\<lparr>newRequests = [],
        newResponses = [pageResponse [examplePost ''1'' ''a'', examplePost ''1'' ''z'',
                                      examplePost ''2'' ''b''] False]\<rparr>] [True] init)) = Done"
proof -
  define rs where "rs = [pageResponse [examplePost ''1'' ''a'', examplePost ''1'' ''z'',
                                      examplePost ''2'' ''b''] False]"
  define s0 where "s0 = (startState exampleConfig)\<lparr>responseBuffer := rs\<rparr>"
  define s2 where "s2 = init\<lparr>browser := True, page := True, started := True, finished := True,
                 responseBuffer := rs,
                 postBuffer := [examplePost ''1'' ''a'', examplePost ''2'' ''b''],
                 postIds := \<lparr>ids = {str_id ''2'', str_id ''1''}\<rparr>, index := 2,
                 trace := [Launch, NewPage, Goto (url exampleConfig), Listen,
                           LogInfo ''No posts remaining''] @ [LogDuplicate (str_id ''1'')]\<rparr>"
  have e: "(emit [LogInfo ''No posts remaining''] s0)\<lparr>finished := True\<rparr>
      = init\<lparr>browser := True, page := True, started := True, finished := True,
             responseBuffer := rs,
             trace := [Launch, NewPage, Goto (url exampleConfig), Listen,
                       LogInfo ''No posts remaining'']\<rparr>"
    by (simp add: s0_def startState_def emit_def init_def)
  have p: "processPosts exampleConfig
     [examplePost ''1'' ''a'', examplePost ''1'' ''z'', examplePost ''2'' ''b'']
     (if False then s0 else (emit [LogInfo ''No posts remaining''] s0)\<lparr>finished := True\<rparr>)
     = (Done, s2)"
    using processPosts_duplicate_example
        [where rb = rs
           and tr = "[Launch, NewPage, Goto (url exampleConfig), Listen, LogInfo ''No posts remaining'']"]
    by (simp add: e s2_def)
  have rb: "responseBuffer s0 = [pageResponse [examplePost ''1'' ''a'', examplePost ''1'' ''z'',
                                      examplePost ''2'' ''b''] False]"
    and ng: "\<not> graft s0"
    by (simp_all add: s0_def rs_def startState_fields)
  note r = processResponses_page [OF rb ng p]
  have f: "finished (s2\<lparr>responseBuffer := []\<rparr>)" "pagePromises (s2\<lparr>responseBuffer := []\<rparr>) = []"
    "\<forall>p\<in>set (postBuffer (s2\<lparr>responseBuffer := []\<rparr>)). truthy (Some p)"
    "postBuffer (s2\<lparr>responseBuffer := []\<rparr>) = [examplePost ''1'' ''a'', examplePost ''2'' ''b'']"
    by (simp_all add: s2_def init_def examplePost_truthy)
  have pg: "fst (stop fetch (s2\<lparr>responseBuffer := [], postBuffer := []\<rparr>)) = Done"
    by (simp add: stop_Done s2_def init_def)
  from generator_one_cycle_finished [OF r [unfolded s0_def] f(1,2,3), of fetch] f(4) pg
  show "fst (generator exampleConfig fetch
      [\<lparr>newRequests = [],
        newResponses = [pageResponse [examplePost ''1'' ''a'', examplePost ''1'' ''z'',
                                      examplePost ''2'' ''b''] False]\<rparr>] [True] init)
     = [examplePost ''1'' ''a'', examplePost ''2'' ''b'']"
    and "fst (snd (generator exampleConfig fetch
      [\<lparr>newRequests = [],
        newResponses = [pageResponse [examplePost ''1'' ''a'', examplePost ''1'' ''z'',
                                      examplePost ''2'' ''b''] False]\<rparr>] [True] init)) = Done"
    by (simp_all add: rs_def case_prod_unfold)
qed

lemma processPosts_two_example:
  "processPosts exampleConfig [examplePost ''1'' ''a'', examplePost ''2'' ''b'']
     (init\<lparr>browser := True, page := True, started := True, responseBuffer := rb, trace := tr\<rparr>)
   = (Done, init\<lparr>browser := True, page := True, started := True, responseBuffer := rb,
                 postBuffer := [examplePost ''1'' ''a'', examplePost ''2'' ''b''],
                 postIds := \<lparr>ids = {str_id ''2'', str_id ''1''}\<rparr>, index := 2, trace := tr\<rparr>)"
  by (simp add: init_def exampleConfig_def examplePost_def postNode_def add_def has_def Let_def
      addToPostBuffer_def emit_def str_id_def)

lemma processPosts_three_example:
  "processPosts exampleConfig
     [examplePost ''1'' ''a'', examplePost ''2'' ''b'', examplePost ''3'' ''c'']
     (init\<lparr>browser := True, page := True, started := True, responseBuffer := rb, trace := tr\<rparr>)
   = (Done, init\<lparr>browser := True, page := True, started := True, finished := True,
                 responseBuffer := rb,
                 postBuffer := [examplePost ''1'' ''a'', examplePost ''2'' ''b''],
                 postIds := \<lparr>ids = {str_id ''3'', str_id ''2'', str_id ''1''}\<rparr>, index := 2,
                 trace := tr\<rparr>)"
  by (simp add: init_def exampleConfig_def examplePost_def postNode_def add_def has_def Let_def
      addToPostBuffer_def emit_def str_id_def)

lemma not_rateLimited_page: "\<not> anyRateLimited [pageResponse posts nxt]"
  by (simp add: anyRateLimited_def pageResponse_def examplePage_lookups)

text \<open>
  A page with exactly as many new posts as the cap, and a next page announced: both
  posts are yielded, \<open>index\<close> is at the cap, \<open>finished\<close> is not set, and the
  generator is back in \<^verbatim>\<open>getNext\<close>.
\<close>

lemma run_cap_exactly_met:
  "generator exampleConfig fetch
      [\<lparr>newRequests = [],
        newResponses = [pageResponse [examplePost ''1'' ''a'', examplePost ''2'' ''b''] True]\<rparr>]
      [True] init
   = ([examplePost ''1'' ''a'', examplePost ''2'' ''b''], Pending,
      init\<lparr>browser := True, page := True, started := True,
           postIds := \<lparr>ids = {str_id ''2'', str_id ''1''}\<rparr>, index := 2, jumps := 1,
           trace := [Launch, NewPage, Goto (url exampleConfig), Listen, Jump, Sleep 2]\<rparr>)"
proof -
  define rs where "rs = [pageResponse [examplePost ''1'' ''a'', examplePost ''2'' ''b''] True]"
  define s0 where "s0 = (startState exampleConfig)\<lparr>responseBuffer := rs\<rparr>"
  define s2 where "s2 = init\<lparr>browser := True, page := True, started := True, responseBuffer := rs,
                 postBuffer := [examplePost ''1'' ''a'', examplePost ''2'' ''b''],
                 postIds := \<lparr>ids = {str_id ''2'', str_id ''1''}\<rparr>, index := 2,
                 trace := [Launch, NewPage, Goto (url exampleConfig), Listen]\<rparr>"
  have p: "processPosts exampleConfig [examplePost ''1'' ''a'', examplePost ''2'' ''b'']
     (if True then s0 else (emit [LogInfo ''No posts remaining''] s0)\<lparr>finished := True\<rparr>)
     = (Done, s2)"
    using processPosts_two_example
        [where rb = rs and tr = "[Launch, NewPage, Goto (url exampleConfig), Listen]"]
    by (simp add: s0_def startState_def s2_def init_def)
  have rb: "responseBuffer s0 = [pageResponse [examplePost ''1'' ''a'', examplePost ''2'' ''b''] True]"
    and ng: "\<not> graft s0"
    by (simp_all add: s0_def rs_def startState_fields)
  note r = processResponses_page [OF rb ng p]
  have f: "\<not> finished (s2\<lparr>responseBuffer := []\<rparr>)" "pagePromises (s2\<lparr>responseBuffer := []\<rparr>) = []"
    "\<forall>p\<in>set (postBuffer (s2\<lparr>responseBuffer := []\<rparr>)). truthy (Some p)"
    "postBuffer (s2\<lparr>responseBuffer := []\<rparr>) \<noteq> []"
    by (simp_all add: s2_def init_def examplePost_truthy)
  have nr: "\<not> anyRateLimited rs" by (simp add: rs_def not_rateLimited_page)
  from generator_one_cycle_unfinished [OF r [unfolded s0_def] f nr, of fetch]
  show ?thesis
    by (simp add: rs_def s2_def jump_def sleep_def emit_def init_def exampleConfig_def)
qed

text \<open>
  A page with one new post more than the cap: two posts are yielded, the third sets
  \<open>finished\<close>, and the generator returns.
\<close>

lemma run_cap_exceeded:
  "generator exampleConfig fetch
      [\<lparr>newRequests = [],
        newResponses = [pageResponse [examplePost ''1'' ''a'', examplePost ''2'' ''b'',
                                      examplePost ''3'' ''c''] True]\<rparr>]
      [True] init
   = ([examplePost ''1'' ''a'', examplePost ''2'' ''b''], Done,
      init\<lparr>browser := True, page := True, started := True, finished := True,
           postIds := \<lparr>ids = {str_id ''3'', str_id ''2'', str_id ''1''}\<rparr>, index := 2,
           trace := [Launch, NewPage, Goto (url exampleConfig), Listen,
                     ClosePage, CloseBrowser]\<rparr>)"
proof -
  define rs where "rs = [pageResponse [examplePost ''1'' ''a'', examplePost ''2'' ''b'',
                                      examplePost ''3'' ''c''] True]"
  define s0 where "s0 = (startState exampleConfig)\<lparr>responseBuffer := rs\<rparr>"
  define s2 where "s2 = init\<lparr>browser := True, page := True, started := True, finished := True,
                 responseBuffer := rs,
                 postBuffer := [examplePost ''1'' ''a'', examplePost ''2'' ''b''],
                 postIds := \<lparr>ids = {str_id ''3'', str_id ''2'', str_id ''1''}\<rparr>, index := 2,
                 trace := [Launch, NewPage, Goto (url exampleConfig), Listen]\<rparr>"
  have p: "processPosts exampleConfig
     [examplePost ''1'' ''a'', examplePost ''2'' ''b'', examplePost ''3'' ''c'']
     (if True then s0 else (emit [LogInfo ''No posts remaining''] s0)\<lparr>finished := True\<rparr>)
     = (Done, s2)"
    using processPosts_three_example
        [where rb = rs and tr = "[Launch, NewPage, Goto (url exampleConfig), Listen]"]
    by (simp add: s0_def startState_def s2_def init_def)
  have rb: "responseBuffer s0 = [pageResponse [examplePost ''1'' ''a'', examplePost ''2'' ''b'',
                                      examplePost ''3'' ''c''] True]"
    and ng: "\<not> graft s0"
    by (simp_all add: s0_def rs_def startState_fields)
  note r = processResponses_page [OF rb ng p]
  have f: "finished (s2\<lparr>responseBuffer := []\<rparr>)" "pagePromises (s2\<lparr>responseBuffer := []\<rparr>) = []"
    "\<forall>p\<in>set (postBuffer (s2\<lparr>responseBuffer := []\<rparr>)). truthy (Some p)"
    by (simp_all add: s2_def init_def examplePost_truthy)
  from generator_one_cycle_finished [OF r [unfolded s0_def] f, of fetch]
  show ?thesis
    by (simp add: rs_def s2_def stop_def awaitPagePromises_def emit_def Let_def init_def)
qed

section \<open>Invariants that depend on the responses delivered\<close>

lemma processResponse_tracked:
  assumes k: "keeps_control P"
    and f: "\<And>s. endsPagination c res \<Longrightarrow> P s \<Longrightarrow> P (s\<lparr>finished := True\<rparr>)"
    and p: "\<And>s. P s \<Longrightarrow> P (snd (processPosts c (postsOf c res) s))"
    and "P s"
  shows "P (snd (processResponse c res s))"
proof -
  from k have t: "\<And>s a. P (s\<lparr>trace := a\<rparr>) = P s" and h: "\<And>s a. P (s\<lparr>hibernate := a\<rparr>) = P s"
    by (simp_all add: keeps_control_def)
  have p1: "P (afterParse res s)" using \<open>P s\<close> by (simp add: afterParse_def emit_def t)
  have p3: "P ((emit [LogInfo ''Rate limited''] (afterParse res s))\<lparr>hibernate := True\<rparr>)"
    using p1 by (simp add: emit_def t h)
  show ?thesis
  proof (cases "rateLimited (res_json res)")
    case (Inl e)
    with p1 show ?thesis by (simp add: processResponse_steps)
  next
    case (Inr b)
    show ?thesis
    proof (cases b)
      case True
      with Inr p3 show ?thesis by (simp add: processResponse_steps)
    next
      case False
      have p2: "P (afterPageInfo c res s)"
      proof (cases "hasNextPage c (res_json res)")
        case True
        with p1 show ?thesis by (simp add: afterPageInfo_def)
      next
        case np: False
        with Inr False have "endsPagination c res" by (simp add: endsPagination_def)
        from f [OF this, of "emit [LogInfo ''No posts remaining''] (afterParse res s)"] p1 np
        show ?thesis by (simp add: afterPageInfo_def emit_def t)
      qed
      show ?thesis
      proof (cases "iterate (lodash_get (res_json res) (edgeQuery c) (JArr []))")
        case (Inl e)
        with Inr False p2 show ?thesis by (simp add: processResponse_steps)
      next
        case r: (Inr posts)
        then have "postsOf c res = posts" by (simp add: postsOf_def)
        with p [OF p2] Inr False r show ?thesis by (simp add: processResponse_steps)
      qed
    qed
  qed
qed

lemma responsesLoop_tracked:
  assumes step: "\<And>res s. R res \<Longrightarrow> matchURL (res_url res) \<Longrightarrow> P s
                   \<Longrightarrow> P (snd (processResponse c res s))"
  shows "\<forall>res\<in>set rs. matchURL (res_url res) \<longrightarrow> R res \<Longrightarrow> P s
           \<Longrightarrow> P (snd (snd (responsesLoop c rs dg s)))"
proof (induction rs arbitrary: dg s)
  case Nil
  then show ?case by simp
next
  case (Cons res rs)
  from Cons.prems(1) have rest: "\<forall>res\<in>set rs. matchURL (res_url res) \<longrightarrow> R res" by simp
  show ?case
  proof (cases "matchURL (res_url res)")
    case False
    with Cons.IH [OF rest Cons.prems(2)] show ?thesis by simp
  next
    case True
    with Cons.prems(1) have "R res" by simp
    obtain e1 s1 where r: "processResponse c res s = (e1, s1)" by (cases "processResponse c res s")
    from step [OF \<open>R res\<close> True Cons.prems(2)] r have p1: "P s1" by simp
    show ?thesis
    proof (cases e1)
      case Done
      with True r have "responsesLoop c (res # rs) dg s = responsesLoop c rs True s1" by simp
      with Cons.IH [OF rest p1, of True] show ?thesis by simp
    next
      case (Threw x)
      with True r p1 show ?thesis by simp
    next
      case Pending
      with True r p1 show ?thesis by simp
    qed
  qed
qed

lemma processResponses_tracked:
  assumes k: "keeps_control P"
    and step: "\<And>res s. R res \<Longrightarrow> matchURL (res_url res) \<Longrightarrow> P s
                   \<Longrightarrow> P (snd (processResponse c res s))"
    and b: "buffered R s" and "P s"
  shows "P (snd (processResponses c s))"
proof -
  from k have g: "\<And>s a. P (s\<lparr>graft := a\<rparr>) = P s" and rb: "\<And>s a. P (s\<lparr>responseBuffer := a\<rparr>) = P s"
    by (simp_all add: keeps_control_def)
  obtain e dg s1 where r: "responsesLoop c (responseBuffer s) False s = (e, dg, s1)"
    by (cases "responsesLoop c (responseBuffer s) False s") auto
  from b have "\<forall>res\<in>set (responseBuffer s). matchURL (res_url res) \<longrightarrow> R res"
    by (simp add: buffered_def)
  from responsesLoop_tracked [of R P c "responseBuffer s" s False, OF step this \<open>P s\<close>] r
  have "P s1" by simp
  with r show ?thesis by (cases e) (simp_all add: processResponses_def g rb)
qed

lemma keeps_responses_buffer: "keeps_responses responseBuffer"
  by (simp add: keeps_responses_def keeps_posts_def)

lemma processResponses_buffered: "buffered R s \<Longrightarrow> buffered R (snd (processResponses c s))"
proof -
  assume b: "buffered R s"
  obtain e dg s1 where r: "responsesLoop c (responseBuffer s) False s = (e, dg, s1)"
    by (cases "responsesLoop c (responseBuffer s) False s") auto
  from responsesLoop_frame [OF keeps_responses_buffer, of c "responseBuffer s" False s] r
  have "responseBuffer s1 = responseBuffer s" by simp
  with b r show ?thesis by (cases e) (simp_all add: processResponses_def buffered_def)
qed

lemma stop_buffered: "buffered R s \<Longrightarrow> buffered R (snd (stop fetch s))"
  by (simp add: buffered_def stop_def awaitPagePromises_def emit_def Let_def)

lemma keeps_launch_buffer: "keeps_launch responseBuffer"
  by (simp add: keeps_launch_def)

lemma buffered_cong: "responseBuffer s' = responseBuffer s \<Longrightarrow> buffered R s' = buffered R s"
  by (simp add: buffered_def)

lemma initiateGraft_buffered:
  assumes "buffered R s"
  shows "buffered R (fst (snd (initiateGraft c fetch nav s)))"
proof (cases "enableGrafting c")
  case False
  with assms show ?thesis by (simp add: initiateGraft_def)
next
  case True
  obtain e s1 where r: "stop fetch s = (e, s1)" by (cases "stop fetch s")
  from stop_buffered [OF assms, of fetch] r have b1: "buffered R s1" by simp
  have "responseBuffer (fst (snd (start c nav (s1\<lparr>graft := True\<rparr>)))) = responseBuffer s1"
    by (simp add: start_frame [OF keeps_launch_buffer])
  from buffered_cong [OF this, of R] b1
  have "buffered R (fst (snd (start c nav (s1\<lparr>graft := True\<rparr>))))" by (simp add: buffered_def)
  with True r b1 show ?thesis by (cases e) (simp_all add: initiateGraft_def)
qed

lemma stimulate_buffered:
  assumes "buffered R s"
  shows "buffered R (fst (snd (snd (stimulate c fetch nav s))))"
proof (cases "paused s")
  case True
  with assms show ?thesis by (simp add: stimulate_def waitResume_def)
next
  case False
  have j: "buffered R (jump s)" using assms by (simp add: jump_def emit_def buffered_def)
  define g where "g = (if jumps (jump s) mod jumpMod = 0 then initiateGraft c fetch nav (jump s)
                 else (Done, jump s, nav))"
  obtain e s6 nav1 where r: "g = (e, s6, nav1)" by (cases g) auto
  have "buffered R (fst (snd g))"
    unfolding g_def using initiateGraft_buffered [OF j, of c fetch nav] j by simp
  with r have o: "buffered R s6" by simp
  from False r o show ?thesis
    by (cases e)
       (simp_all add: stimulate_def waitResume_def Let_def sleep_def emit_def buffered_def
          g_def [symmetric])
qed

lemma deliver_buffered:
  assumes "buffered R s" and "\<forall>res\<in>set (newResponses cy). matchURL (res_url res) \<longrightarrow> R res"
  shows "buffered R (processRequests (deliver cy s))"
proof -
  have "responseBuffer (processRequests (deliver cy s)) = responseBuffer s @ newResponses cy"
    by (simp add: processRequests_frame keeps_requests_fields deliver_eq)
  with assms show ?thesis by (auto simp: buffered_def)
qed

lemma getNextBody_buffered:
  assumes "buffered R s" and "\<forall>res\<in>set (newResponses cy). matchURL (res_url res) \<longrightarrow> R res"
  shows "buffered R (fst (snd (snd (getNextBody c fetch cy nav s))))"
proof -
  define s1 where "s1 = processRequests (deliver cy s)"
  have b1: "buffered R s1" unfolding s1_def by (rule deliver_buffered [OF assms])
  obtain e s2 where r: "processResponses c s1 = (e, s2)" by (cases "processResponses c s1")
  from processResponses_buffered [OF b1, of c] r have b2: "buffered R s2" by simp
  then have b3: "buffered R (awaitPagePromises fetch s2)"
    by (simp add: buffered_def awaitPagePromises_def)
  from stimulate_buffered [OF b3, of c fetch nav]
  have b4: "buffered R (fst (snd (snd (stimulate c fetch nav (awaitPagePromises fetch s2)))))" .
  from r b2 b3 b4 show ?thesis
    by (cases e) (simp_all add: getNextBody_phases s1_def [symmetric] Let_def await_idem)
qed

lemma getNextBody_tracked:
  assumes k: "keeps_control P"
    and step: "\<And>res s. R res \<Longrightarrow> matchURL (res_url res) \<Longrightarrow> P s
                   \<Longrightarrow> P (snd (processResponse c res s))"
    and a: "\<And>s. P s \<Longrightarrow> P (awaitPagePromises fetch s)"
    and b: "buffered R s"
    and n: "\<forall>res\<in>set (newResponses cy). matchURL (res_url res) \<longrightarrow> R res"
    and "P s"
  shows "P (fst (snd (snd (getNextBody c fetch cy nav s))))"
proof -
  define s1 where "s1 = processRequests (deliver cy s)"
  have p1: "P s1" using \<open>P s\<close> by (simp add: s1_def deliver_control [OF k])
  have b1: "buffered R s1" unfolding s1_def by (rule deliver_buffered [OF b n])
  obtain e s2 where r: "processResponses c s1 = (e, s2)" by (cases "processResponses c s1")
  from processResponses_tracked [of P R c s1, OF k step b1 p1] r have p2: "P s2" by simp
  from a [OF p2] have p3: "P (awaitPagePromises fetch s2)" .
  from stimulate_invariant [of P fetch "awaitPagePromises fetch s2" c nav, OF k a p3]
  have p4: "P (fst (snd (snd (stimulate c fetch nav (awaitPagePromises fetch s2)))))" .
  from r p2 p3 p4 show ?thesis
    by (cases e) (simp_all add: getNextBody_phases s1_def [symmetric] Let_def await_idem)
qed

lemma getNext_tracked:
  assumes k: "keeps_control P"
    and step: "\<And>res s. R res \<Longrightarrow> matchURL (res_url res) \<Longrightarrow> P s
                   \<Longrightarrow> P (snd (processResponse c res s))"
    and a: "\<And>s. P s \<Longrightarrow> P (awaitPagePromises fetch s)"
  shows "\<forall>cy\<in>set cycles. \<forall>res\<in>set (newResponses cy). matchURL (res_url res) \<longrightarrow> R res
           \<Longrightarrow> buffered R s \<Longrightarrow> P s
           \<Longrightarrow> P (fst (snd (getNext c fetch cycles nav s)))
               \<and> buffered R (fst (snd (getNext c fetch cycles nav s)))"
proof (induction cycles arbitrary: nav s)
  case Nil
  then show ?case by simp
next
  case (Cons cy cys)
  from Cons.prems(1) have n: "\<forall>res\<in>set (newResponses cy). matchURL (res_url res) \<longrightarrow> R res"
    and rest: "\<forall>cy\<in>set cys. \<forall>res\<in>set (newResponses cy). matchURL (res_url res) \<longrightarrow> R res"
    by simp_all
  obtain e fl s1 nav1 where r: "getNextBody c fetch cy nav s = (e, fl, s1, nav1)"
    by (cases "getNextBody c fetch cy nav s") auto
  from getNextBody_tracked [of P R c fetch s cy nav, OF k step a Cons.prems(2) n Cons.prems(3)] r
  have p1: "P s1" by simp
  from getNextBody_buffered [OF Cons.prems(2) n, of c fetch nav] r
  have b1: "buffered R s1" by simp
  show ?case
  proof (cases "e = Done \<and> fl = Again")
    case True
    with r have "getNext c fetch (cy # cys) nav s = getNext c fetch cys nav1 s1" by simp
    with Cons.IH [OF rest b1 p1, of nav1] show ?thesis by simp
  next
    case False
    with r have "getNext c fetch (cy # cys) nav s = (e, s1, cys, nav1)"
      by (cases e; cases fl) simp_all
    with p1 b1 show ?thesis by simp
  qed
qed

lemma getNext_rest:
  "set (fst (snd (snd (getNext c fetch cycles nav s)))) \<subseteq> set cycles"
proof (induction cycles arbitrary: nav s)
  case Nil
  then show ?case by simp
next
  case (Cons cy cys)
  obtain e fl s1 nav1 where r: "getNextBody c fetch cy nav s = (e, fl, s1, nav1)"
    by (cases "getNextBody c fetch cy nav s") auto
  show ?case
  proof (cases "e = Done \<and> fl = Again")
    case True
    with r have "getNext c fetch (cy # cys) nav s = getNext c fetch cys nav1 s1" by simp
    with Cons.IH [of nav1 s1] show ?thesis by auto
  next
    case False
    with r have "getNext c fetch (cy # cys) nav s = (e, s1, cys, nav1)"
      by (cases e; cases fl) simp_all
    then show ?thesis by auto
  qed
qed

lemma generatorLoop_tracked:
  assumes k: "\<And>out. keeps_control (I out)"
    and step: "\<And>out res s. R res \<Longrightarrow> matchURL (res_url res) \<Longrightarrow> I out s
                   \<Longrightarrow> I out (snd (processResponse c res s))"
    and a: "\<And>out s. I out s \<Longrightarrow> I out (awaitPagePromises fetch s)"
    and y: "\<And>out s. I out s \<Longrightarrow> I (out @ fst (yieldPosts s)) (snd (yieldPosts s))"
  shows "\<forall>cy\<in>set cycles. \<forall>res\<in>set (newResponses cy). matchURL (res_url res) \<longrightarrow> R res
           \<Longrightarrow> buffered R s \<Longrightarrow> I out s
           \<Longrightarrow> I (out @ fst (generatorLoop c fetch cycles nav s))
                 (snd (snd (generatorLoop c fetch cycles nav s)))"
proof (induction "length cycles" arbitrary: cycles nav s out rule: less_induct)
  case less
  obtain e s1 cycles1 nav1 where g: "getNext c fetch cycles nav s = (e, s1, cycles1, nav1)"
    by (cases "getNext c fetch cycles nav s") auto
  from getNext_tracked [of "I out" R c fetch cycles s nav, OF k step a less.prems] g
  have i1: "I out s1" and b1: "buffered R s1" by simp_all
  show ?case
  proof (cases "e = Done")
    case False
    from generatorLoop_stops [OF g False] i1 show ?thesis by simp
  next
    case True
    with g have g': "getNext c fetch cycles nav s = (Done, s1, cycles1, nav1)" by simp
    obtain posts s2 where yp: "yieldPosts s1 = (posts, s2)" by (cases "yieldPosts s1")
    from y [OF i1] yp have i2: "I (out @ posts) s2" by simp
    have "responseBuffer (snd (yieldPosts s1)) = responseBuffer s1"
      by (rule yieldPosts_frame) simp
    with b1 yp have b2: "buffered R s2" by (simp add: buffered_def)
    note st = generatorLoop_step [OF g' yp]
    show ?thesis
    proof (cases "finished s2")
      case True
      with st i2 show ?thesis by simp
    next
      case False
      from getNext_consumes [OF g'] have l: "length cycles1 < length cycles" by simp
      from getNext_rest [of c fetch cycles nav s] g have "set cycles1 \<subseteq> set cycles" by simp
      with less.prems(1)
      have c1: "\<forall>cy\<in>set cycles1. \<forall>res\<in>set (newResponses cy). matchURL (res_url res) \<longrightarrow> R res"
        by blast
      from less.hyps [OF l c1 b2 i2, of nav1] st False show ?thesis by simp
    qed
  qed
qed

lemma generator_tracked:
  assumes k: "\<And>out. keeps_control (I out)"
    and step: "\<And>out res s. R res \<Longrightarrow> matchURL (res_url res) \<Longrightarrow> I out s
                   \<Longrightarrow> I out (snd (processResponse c res s))"
    and a: "\<And>out s. I out s \<Longrightarrow> I out (awaitPagePromises fetch s)"
    and y: "\<And>out s. I out s \<Longrightarrow> I (out @ fst (yieldPosts s)) (snd (yieldPosts s))"
    and cs: "\<forall>cy\<in>set cycles. \<forall>res\<in>set (newResponses cy). matchURL (res_url res) \<longrightarrow> R res"
    and b: "buffered R s"
    and i: "I [] s"
  shows "I (fst (generator c fetch cycles nav s)) (snd (snd (generator c fetch cycles nav s)))"
proof -
  define r where "r = (if \<not> started s then start c nav s else (Done, s, nav))"
  obtain e s1 nav1 where r: "r = (e, s1, nav1)" by (cases r) auto
  have "I [] (fst (snd r))"
    unfolding r_def using i start_frame [OF keeps_control_launch [OF k], of "[]" c nav s] by simp
  with r have i1: "I [] s1" by simp
  have "responseBuffer (fst (snd r)) = responseBuffer s"
    unfolding r_def by (simp add: start_frame [OF keeps_launch_buffer])
  with r b have b1: "buffered R s1" by (simp add: buffered_def)
  show ?thesis
  proof (cases "e = Done")
    case False
    with r i1 show ?thesis
      by (cases e) (simp_all add: generator_def r_def [symmetric])
  next
    case True
    obtain out e2 s2 where l: "generatorLoop c fetch cycles nav1 s1 = (out, e2, s2)"
      by (cases "generatorLoop c fetch cycles nav1 s1") auto
    from generatorLoop_tracked [of I R c fetch cycles s1 "[]" nav1, OF k step a y cs b1 i1] l
    have i2: "I out s2" by simp
    show ?thesis
    proof (cases "e2 = Done")
      case False
      with True r l i2 show ?thesis
        by (cases e2) (simp_all add: generator_def r_def [symmetric])
    next
      case d: True
      from stop_invariant [of "I out" fetch s2, OF k a i2] have "I out (snd (stop fetch s2))" .
      with True d r l show ?thesis
        by (simp add: generator_def r_def [symmetric] case_prod_unfold)
    qed
  qed
qed

lemma delivered_cycles:
  "\<forall>cy\<in>set cycles. \<forall>res\<in>set (newResponses cy). matchURL (res_url res) \<longrightarrow> res \<in> set (delivered cycles)"
  by (auto simp: delivered_def)

lemma buffered_init: "buffered R init"
  by (simp add: buffered_def init_def)

section \<open>The cap: when the loop over the posts ends, and when finished is set\<close>

lemma processPosts_cap_break:
  assumes "postNode post = Inr node" and "\<not> has (ids (postIds s)) (js_prop node ''id'')"
    and "total c \<noteq> 0" and "total c \<le> index s"
  shows "processPosts c (post # rest) s
           = (Done, s\<lparr>postIds := snd (add (js_prop node ''id'') (postIds s)), finished := True\<rparr>)"
  using assms by (simp add: Let_def add_def)

lemma processPosts_skip_duplicate:
  assumes "postNode post = Inr node" and "has (ids (postIds s)) (js_prop node ''id'')"
  shows "processPosts c (post # posts) s
           = processPosts c posts (emit [LogDuplicate (js_prop node ''id'')] s)"
proof -
  from assms(2) have m: "js_prop node ''id'' \<in> ids (postIds s)" by (simp add: has_def)
  then have "insert (js_prop node ''id'') (ids (postIds s)) = ids (postIds s)" by auto
  then have "snd (add (js_prop node ''id'') (postIds s)) = postIds s"
    by (simp add: add_def)
  moreover from assms(2) have "fst (add (js_prop node ''id'') (postIds s))"
    by (simp add: add_def)
  ultimately show ?thesis using assms(1) by (simp add: Let_def)
qed

lemma emit_emit: "emit es (emit fs s) = emit (fs @ es) s"
  by (simp add: emit_def)

lemma emit_Nil: "emit [] s = s"
  by (simp add: emit_def)

lemma processPosts_cap_break_after_duplicates:
  assumes "total c \<noteq> 0" and "total c \<le> index s"
    and "\<forall>p\<in>set dups. \<exists>n. postNode p = Inr n \<and> has (ids (postIds s)) (js_prop n ''id'')"
    and "postNode post = Inr node" and "\<not> has (ids (postIds s)) (js_prop node ''id'')"
  shows "processPosts c (dups @ post # rest) s
           = (Done, (emit (map (\<lambda>p. LogDuplicate (post_id p)) dups) s)
                      \<lparr>postIds := snd (add (js_prop node ''id'') (postIds s)), finished := True\<rparr>)"
  using assms
proof (induction dups arbitrary: s)
  case Nil
  then show ?case using processPosts_cap_break [of post node s c rest] by (simp add: emit_Nil)
next
  case (Cons d ds)
  from Cons.prems(3) obtain n where n: "postNode d = Inr n"
    and h: "has (ids (postIds s)) (js_prop n ''id'')" by auto
  define s1 where "s1 = emit [LogDuplicate (js_prop n ''id'')] s"
  have f: "postIds s1 = postIds s" "index s1 = index s" by (simp_all add: s1_def emit_def)
  have st: "processPosts c ((d # ds) @ post # rest) s = processPosts c (ds @ post # rest) s1"
    using processPosts_skip_duplicate [OF n h, of c "ds @ post # rest"] by (simp add: s1_def)
  have ih: "processPosts c (ds @ post # rest) s1
           = (Done, (emit (map (\<lambda>p. LogDuplicate (post_id p)) ds) s1)
                      \<lparr>postIds := snd (add (js_prop node ''id'') (postIds s1)), finished := True\<rparr>)"
    using Cons.IH [of s1] Cons.prems f by simp
  have pid: "post_id d = js_prop n ''id''" by (simp add: post_id_def n)
  show ?case unfolding st ih by (simp add: s1_def emit_emit pid f [unfolded s1_def])
qed

lemma processPosts_at_cap:
  assumes "total c \<noteq> 0"
  shows "total c \<le> index s \<Longrightarrow>
     index (snd (processPosts c posts s)) = index s
     \<and> postBuffer (snd (processPosts c posts s)) = postBuffer s
     \<and> pagePromises (snd (processPosts c posts s)) = pagePromises s"
proof (induction posts arbitrary: s)
  case Nil
  then show ?case by simp
next
  case (Cons post posts)
  show ?case
  proof (cases "postNode post")
    case (Inl e)
    then show ?thesis by simp
  next
    case (Inr node)
    define v where "v = js_prop node ''id''"
    define s1 where "s1 = s\<lparr>postIds := snd (add v (postIds s))\<rparr>"
    have f1: "index s1 = index s" "postBuffer s1 = postBuffer s" "pagePromises s1 = pagePromises s"
      by (simp_all add: s1_def)
    show ?thesis
    proof (cases "fst (add v (postIds s))")
      case True
      have "total c \<le> index (emit [LogDuplicate v] s1)" using Cons.prems by (simp add: emit_def f1)
      from Cons.IH [OF this] Inr True f1 show ?thesis
        by (simp add: Let_def v_def [symmetric] s1_def [symmetric] emit_def)
    next
      case False
      from Cons.prems assms have "\<not> (index s1 < total c \<or> total c = 0)" by (simp add: f1)
      with Inr False f1 show ?thesis
        by (simp add: Let_def v_def [symmetric] s1_def [symmetric])
    qed
  qed
qed

lemma processPosts_capUpper:
  "capUpper c s \<Longrightarrow> capUpper c (snd (processPosts c posts s))"
proof (induction posts arbitrary: s)
  case Nil
  then show ?case by simp
next
  case (Cons post posts)
  show ?case
  proof (cases "postNode post")
    case (Inl e)
    with Cons.prems show ?thesis by simp
  next
    case (Inr node)
    define v where "v = js_prop node ''id''"
    define s1 where "s1 = s\<lparr>postIds := snd (add v (postIds s))\<rparr>"
    from Cons.prems have fin: "finite (ids (postIds s))"
      and u: "(\<forall>w\<in>ids (postIds s). is_primitive w) \<Longrightarrow>
                index s \<le> int (card (ids (postIds s))) \<and>
                (finished s \<longrightarrow> total c < int (card (ids (postIds s))))"
      by (simp_all add: capUpper_def)
    have ids1: "ids (postIds s1) = insert v (ids (postIds s))" by (simp add: s1_def ids_add)
    have f1: "finite (ids (postIds s1))" using fin by (simp add: ids1)
    show ?thesis
    proof (cases "fst (add v (postIds s))")
      case True
      then have "v \<in> ids (postIds s)" by (simp add: fst_add)
      then have "ids (postIds s1) = ids (postIds s)" by (auto simp: ids1)
      with Cons.prems have "capUpper c (emit [LogDuplicate v] s1)"
        by (simp add: capUpper_def emit_def s1_def)
      from Cons.IH [OF this] Inr True show ?thesis
        by (simp add: Let_def v_def [symmetric] s1_def [symmetric])
    next
      case False
      then have nc: "\<not> (is_primitive v \<and> v \<in> ids (postIds s))" by (simp add: fst_add)
      have grow: "(\<forall>w\<in>insert v (ids (postIds s)). is_primitive w) \<Longrightarrow>
          int (card (insert v (ids (postIds s)))) = int (card (ids (postIds s))) + 1
          \<and> index s \<le> int (card (ids (postIds s)))
          \<and> (finished s \<longrightarrow> total c < int (card (ids (postIds s))))"
      proof -
        assume a: "\<forall>w\<in>insert v (ids (postIds s)). is_primitive w"
        then have "is_primitive v" and old: "\<forall>w\<in>ids (postIds s). is_primitive w" by simp_all
        with nc have "v \<notin> ids (postIds s)" by simp
        with fin have "int (card (insert v (ids (postIds s)))) = int (card (ids (postIds s))) + 1"
          by simp
        with u [OF old] show ?thesis by simp
      qed
      show ?thesis
      proof (cases "index s1 < total c \<or> total c = 0")
        case True
        define s2 where "s2 = s1\<lparr>index := index s1 + 1\<rparr>"
        have "capUpper c s2"
          using f1 grow by (auto simp: capUpper_def s2_def ids1) (simp_all add: s1_def)
        then have x: "capUpper c (addToPostBuffer post s2)"
          and y: "capUpper c (s2\<lparr>pagePromises := pagePromises s2 @ [js_prop node ''shortcode'']\<rparr>)"
          by (simp_all add: capUpper_def addToPostBuffer_def)
        from Cons.IH [OF x] Cons.IH [OF y] Inr False True show ?thesis
          by (simp add: Let_def v_def [symmetric] s1_def [symmetric] s2_def [symmetric])
      next
        case nocap: False
        then have le: "total c \<le> index s" by (simp add: s1_def)
        have "capUpper c (s1\<lparr>finished := True\<rparr>)"
          using f1 grow le by (auto simp: capUpper_def ids1) (simp_all add: s1_def)
        with Inr False nocap show ?thesis
          by (simp add: Let_def v_def [symmetric] s1_def [symmetric])
      qed
    qed
  qed
qed

lemma keeps_control_capUpper: "keeps_control (capUpper c)"
  by (simp add: keeps_control_def capUpper_def)

lemma generator_capUpper:
  assumes "\<forall>res\<in>set (delivered cycles). \<not> endsPagination c res"
  shows "capUpper c (snd (snd (generator c fetch cycles nav init)))"
proof (rule generator_tracked [where I = "\<lambda>out. capUpper c" and R = "\<lambda>res. \<not> endsPagination c res"])
  show "\<And>out. keeps_control (capUpper c)" by (rule keeps_control_capUpper)
  show "\<And>out res s. \<not> endsPagination c res \<Longrightarrow> matchURL (res_url res) \<Longrightarrow> capUpper c s
          \<Longrightarrow> capUpper c (snd (processResponse c res s))"
  proof -
    fix res s
    assume n: "\<not> endsPagination c res" and i: "capUpper c s"
    show "capUpper c (snd (processResponse c res s))"
    proof (rule processResponse_tracked [OF keeps_control_capUpper])
      show "\<And>s. endsPagination c res \<Longrightarrow> capUpper c s \<Longrightarrow> capUpper c (s\<lparr>finished := True\<rparr>)"
        using n by simp
      show "\<And>s. capUpper c s \<Longrightarrow> capUpper c (snd (processPosts c (postsOf c res) s))"
        by (rule processPosts_capUpper)
      show "capUpper c s" by (rule i)
    qed
  qed
  show "\<And>out s. capUpper c s \<Longrightarrow> capUpper c (awaitPagePromises fetch s)"
    by (simp add: capUpper_def awaitPagePromises_def)
  show "\<And>out s. capUpper c s \<Longrightarrow> capUpper c (snd (yieldPosts s))"
  proof -
    fix s
    assume "capUpper c s"
    moreover have "capUpper c (snd (yieldPosts s)) = capUpper c s"
      by (rule yieldPosts_frame) (simp add: capUpper_def)
    ultimately show "capUpper c (snd (yieldPosts s))" by simp
  qed
  show "\<forall>cy\<in>set cycles. \<forall>res\<in>set (newResponses cy). matchURL (res_url res) \<longrightarrow> \<not> endsPagination c res"
    using assms delivered_cycles [of cycles] by blast
  show "buffered (\<lambda>res. \<not> endsPagination c res) init" by (rule buffered_init)
  show "capUpper c init" by (simp add: capUpper_def init_def)
qed

lemma generator_finished_upper:
  assumes "generator c fetch cycles nav init = (out, e, s')"
    and "\<forall>res\<in>set (delivered cycles). \<not> endsPagination c res"
    and "\<forall>v\<in>ids (postIds s'). is_primitive v"
  shows "finished s' \<Longrightarrow> total c < int (card (ids (postIds s')))"
    and "int (card (ids (postIds s'))) \<le> total c \<Longrightarrow> \<not> finished s' \<and> e \<noteq> Done"
proof -
  from generator_capUpper [OF assms(2), of fetch nav] assms(1) have "capUpper c s'" by simp
  with assms(3) have u: "finished s' \<longrightarrow> total c < int (card (ids (postIds s')))"
    by (simp add: capUpper_def)
  then show "finished s' \<Longrightarrow> total c < int (card (ids (postIds s')))" by simp
  assume le: "int (card (ids (postIds s'))) \<le> total c"
  with u have nf: "\<not> finished s'" by auto
  have "e = Done \<Longrightarrow> finished s'"
    using generator_Done_finished [of c fetch cycles nav init out s'] assms(1) by simp
  with nf show "\<not> finished s' \<and> e \<noteq> Done" by blast
qed

lemma generator_accounting:
  assumes "goodFetch c fetch" and "generator c fetch cycles nav init = (out, e, s')"
  shows "int (length out) + int (length (postBuffer s')) + int (length (pagePromises s')) = index s'"
  using generator_exactInv [OF assms(1) init_invs(3), of cycles nav] assms(2)
  by (simp add: exactInv_def)

lemma endsPagination_page: "endsPagination exampleConfig (pageResponse posts nxt) = (\<not> nxt)"
  by (simp add: endsPagination_def pageResponse_def examplePage_lookups)

lemma delivered_one_page:
  "delivered [\<lparr>newRequests = [], newResponses = [pageResponse posts nxt]\<rparr>] = [pageResponse posts nxt]"
  by (simp add: delivered_def matchURL_pageResponse)

section \<open>The cap\<close>

lemma delivered_pageCycle: "delivered [pageCycle posts nxt] = [pageResponse posts nxt]"
  by (simp add: pageCycle_def delivered_one_page)

lemma run_cap_exceeded_fields:
  "fst (generator exampleConfig fetch
     [pageCycle [examplePost ''1'' ''a'', examplePost ''2'' ''b'', examplePost ''3'' ''c''] True]
     [True] init) = [examplePost ''1'' ''a'', examplePost ''2'' ''b'']"
  "fst (snd (generator exampleConfig fetch
     [pageCycle [examplePost ''1'' ''a'', examplePost ''2'' ''b'', examplePost ''3'' ''c''] True]
     [True] init)) = Done"
  "finished (snd (snd (generator exampleConfig fetch
     [pageCycle [examplePost ''1'' ''a'', examplePost ''2'' ''b'', examplePost ''3'' ''c''] True]
     [True] init)))"
  "index (snd (snd (generator exampleConfig fetch
     [pageCycle [examplePost ''1'' ''a'', examplePost ''2'' ''b'', examplePost ''3'' ''c''] True]
     [True] init))) = 2"
  "ids (postIds (snd (snd (generator exampleConfig fetch
     [pageCycle [examplePost ''1'' ''a'', examplePost ''2'' ''b'', examplePost ''3'' ''c''] True]
     [True] init)))) = {str_id ''3'', str_id ''2'', str_id ''1''}"
  "postBuffer (snd (snd (generator exampleConfig fetch
     [pageCycle [examplePost ''1'' ''a'', examplePost ''2'' ''b'', examplePost ''3'' ''c''] True]
     [True] init))) = []"
  unfolding pageCycle_def run_cap_exceeded by (simp_all add: init_def)

lemma run_cap_exactly_met_fields:
  "fst (generator exampleConfig fetch
     [pageCycle [examplePost ''1'' ''a'', examplePost ''2'' ''b''] True] [True] init)
     = [examplePost ''1'' ''a'', examplePost ''2'' ''b'']"
  "fst (snd (generator exampleConfig fetch
     [pageCycle [examplePost ''1'' ''a'', examplePost ''2'' ''b''] True] [True] init)) = Pending"
  "\<not> finished (snd (snd (generator exampleConfig fetch
     [pageCycle [examplePost ''1'' ''a'', examplePost ''2'' ''b''] True] [True] init)))"
  "index (snd (snd (generator exampleConfig fetch
     [pageCycle [examplePost ''1'' ''a'', examplePost ''2'' ''b''] True] [True] init))) = 2"
  "ids (postIds (snd (snd (generator exampleConfig fetch
     [pageCycle [examplePost ''1'' ''a'', examplePost ''2'' ''b''] True] [True] init))))
     = {str_id ''2'', str_id ''1''}"
  unfolding pageCycle_def run_cap_exactly_met by (simp_all add: init_def)

lemma card_three_ids: "card {str_id ''3'', str_id ''2'', str_id ''1''} = 3"
  by (simp add: str_id_def)

lemma card_two_ids: "card {str_id ''2'', str_id ''1''} = 2"
  by (simp add: str_id_def)

lemma processPosts_atCap_example:
  "processPosts exampleConfig [examplePost ''3'' ''c'', examplePost ''4'' ''d''] atCap
     = (Done, atCap\<lparr>postIds := \<lparr>ids = {str_id ''3'', str_id ''1'', str_id ''2''}\<rparr>,
                     finished := True\<rparr>)"
  by (simp add: atCap_def startState_def init_def exampleConfig_def examplePost_def postNode_def
      add_def has_def Let_def str_id_def)

text \<open>
  C2, as the code has it. For a cap \<open>total = N > 0\<close> and a fresh session, however the
  run of the generator ends: \<open>index\<close> is at most \<open>N\<close> and at most \<open>N\<close> posts
  are yielded; once the id set holds \<open>N\<close> ids, \<open>index\<close> is \<open>N\<close>; once it holds
  more than \<open>N\<close>, \<open>finished\<close> is set. With truthy payloads (always so outside
  full-detail mode) the posts yielded, buffered and pending are exactly \<open>index\<close>;
  a generator that returns has \<open>finished\<close> set, has yielded exactly \<open>index\<close>
  posts and leaves the buffer empty. \<open>finished\<close> does not follow from a supply of
  \<open>N\<close> unique records: with ids compared by value, \<open>finished\<close> is set only
  when a matching response ended the pagination (it is not a rate-limit reply and lacks
  the next-page flag or the cursor) or when more than
  \<open>N\<close> ids were seen; with at most \<open>N\<close> ids and no such response it stays unset
  and the generator does not return. At the cap the loop over the posts of a response
  counts, buffers and queues nothing; the posts whose id is in the set are logged as
  duplicates, and the first post whose id is not in the set sets \<open>finished\<close> and
  ends the loop: the posts after it are not looked at.
\<close>

theorem C2_cap_enforced:
  "(0 < total c \<and> generator c fetch cycles nav init = (out, e, s') \<longrightarrow>
     index s' \<le> total c \<and> int (length out) \<le> total c
     \<and> (total c \<le> int (card (ids (postIds s'))) \<longrightarrow> index s' = total c)
     \<and> (total c < int (card (ids (postIds s'))) \<longrightarrow> finished s')
     \<and> (e = Done \<longrightarrow> finished s')
     \<and> (e = Done \<and> goodFetch c fetch \<longrightarrow> int (length out) = index s' \<and> postBuffer s' = [])
     \<and> (goodFetch c fetch \<longrightarrow>
          int (length out) + int (length (postBuffer s')) + int (length (pagePromises s'))
            = index s')
     \<and> ((\<forall>res\<in>set (delivered cycles). \<not> endsPagination c res)
          \<and> (\<forall>v\<in>ids (postIds s'). is_primitive v) \<and> finished s' \<longrightarrow>
          total c < int (card (ids (postIds s'))))
     \<and> ((\<forall>res\<in>set (delivered cycles). \<not> endsPagination c res)
          \<and> (\<forall>v\<in>ids (postIds s'). is_primitive v)
          \<and> int (card (ids (postIds s'))) \<le> total c \<longrightarrow>
          \<not> finished s' \<and> e \<noteq> Done))
   \<and> (total c \<noteq> 0 \<and> total c \<le> index s \<longrightarrow>
        index (snd (processPosts c posts s)) = index s
        \<and> postBuffer (snd (processPosts c posts s)) = postBuffer s
        \<and> pagePromises (snd (processPosts c posts s)) = pagePromises s)
   \<and> (total c \<noteq> 0 \<and> total c \<le> index s
        \<and> (\<forall>p\<in>set dups. \<exists>n. postNode p = Inr n
                                \<and> has (ids (postIds s)) (js_prop n ''id''))
        \<and> postNode post = Inr node
        \<and> \<not> has (ids (postIds s)) (js_prop node ''id'') \<longrightarrow>
        processPosts c (dups @ post # rest) s
          = (Done, (emit (map (\<lambda>p. LogDuplicate (post_id p)) dups) s)
                     \<lparr>postIds := snd (add (js_prop node ''id'') (postIds s)),
                      finished := True\<rparr>))"
proof -
  have run: "0 < total c \<and> generator c fetch cycles nav init = (out, e, s') \<longrightarrow>
     index s' \<le> total c \<and> int (length out) \<le> total c
     \<and> (total c \<le> int (card (ids (postIds s'))) \<longrightarrow> index s' = total c)
     \<and> (total c < int (card (ids (postIds s'))) \<longrightarrow> finished s')
     \<and> (e = Done \<longrightarrow> finished s')
     \<and> (e = Done \<and> goodFetch c fetch \<longrightarrow> int (length out) = index s' \<and> postBuffer s' = [])
     \<and> (goodFetch c fetch \<longrightarrow>
          int (length out) + int (length (postBuffer s')) + int (length (pagePromises s'))
            = index s')
     \<and> ((\<forall>res\<in>set (delivered cycles). \<not> endsPagination c res)
          \<and> (\<forall>v\<in>ids (postIds s'). is_primitive v) \<and> finished s' \<longrightarrow>
          total c < int (card (ids (postIds s'))))
     \<and> ((\<forall>res\<in>set (delivered cycles). \<not> endsPagination c res)
          \<and> (\<forall>v\<in>ids (postIds s'). is_primitive v)
          \<and> int (card (ids (postIds s'))) \<le> total c \<longrightarrow>
          \<not> finished s' \<and> e \<noteq> Done)"
  proof
    assume h: "0 < total c \<and> generator c fetch cycles nav init = (out, e, s')"
    then have t: "0 < total c" and g: "generator c fetch cycles nav init = (out, e, s')"
      by simp_all
    from t have "capInv c init" by (simp add: init_invs)
    from generator_capInv [OF t this, of fetch cycles nav] g
    have cap: "capInv c s'" by simp
    from generator_countInv [OF init_invs(2), of c fetch cycles nav] g
    have cnt: "countInv out s'" by simp
    from cap have i: "index s' \<le> total c"
      and a: "index s' = total c \<or> int (card (ids (postIds s'))) \<le> index s'"
      and b: "finished s' \<or> int (card (ids (postIds s'))) \<le> index s'"
      by (simp_all add: capInv_def)
    from cnt i have l: "int (length out) \<le> total c" by (simp add: countInv_def)
    from a i have x: "total c \<le> int (card (ids (postIds s'))) \<longrightarrow> index s' = total c" by auto
    from b i have y: "total c < int (card (ids (postIds s'))) \<longrightarrow> finished s'" by auto
    have z: "e = Done \<longrightarrow> finished s'"
      using generator_Done_finished [of c fetch cycles nav init out s'] g by auto
    have w: "e = Done \<and> goodFetch c fetch \<longrightarrow> int (length out) = index s' \<and> postBuffer s' = []"
      using generator_Done_drained [of c fetch cycles nav out s'] g by auto
    have acc: "goodFetch c fetch \<longrightarrow>
          int (length out) + int (length (postBuffer s')) + int (length (pagePromises s'))
            = index s'"
      using generator_accounting [of c fetch cycles nav out e s'] g by blast
    have up: "(\<forall>res\<in>set (delivered cycles). \<not> endsPagination c res)
          \<and> (\<forall>v\<in>ids (postIds s'). is_primitive v) \<and> finished s' \<longrightarrow>
          total c < int (card (ids (postIds s')))"
      using generator_finished_upper(1) [OF g] by blast
    have poll: "(\<forall>res\<in>set (delivered cycles). \<not> endsPagination c res)
          \<and> (\<forall>v\<in>ids (postIds s'). is_primitive v)
          \<and> int (card (ids (postIds s'))) \<le> total c \<longrightarrow>
          \<not> finished s' \<and> e \<noteq> Done"
      using generator_finished_upper(2) [OF g] by blast
    from i l x y z w acc up poll
    show "index s' \<le> total c \<and> int (length out) \<le> total c
     \<and> (total c \<le> int (card (ids (postIds s'))) \<longrightarrow> index s' = total c)
     \<and> (total c < int (card (ids (postIds s'))) \<longrightarrow> finished s')
     \<and> (e = Done \<longrightarrow> finished s')
     \<and> (e = Done \<and> goodFetch c fetch \<longrightarrow> int (length out) = index s' \<and> postBuffer s' = [])
     \<and> (goodFetch c fetch \<longrightarrow>
          int (length out) + int (length (postBuffer s')) + int (length (pagePromises s'))
            = index s')
     \<and> ((\<forall>res\<in>set (delivered cycles). \<not> endsPagination c res)
          \<and> (\<forall>v\<in>ids (postIds s'). is_primitive v) \<and> finished s' \<longrightarrow>
          total c < int (card (ids (postIds s'))))
     \<and> ((\<forall>res\<in>set (delivered cycles). \<not> endsPagination c res)
          \<and> (\<forall>v\<in>ids (postIds s'). is_primitive v)
          \<and> int (card (ids (postIds s'))) \<le> total c \<longrightarrow>
          \<not> finished s' \<and> e \<noteq> Done)"
      by (intro conjI)
  qed
  have stay: "total c \<noteq> 0 \<and> total c \<le> index s \<longrightarrow>
        index (snd (processPosts c posts s)) = index s
        \<and> postBuffer (snd (processPosts c posts s)) = postBuffer s
        \<and> pagePromises (snd (processPosts c posts s)) = pagePromises s"
    using processPosts_at_cap [of c s posts] by blast
  have brk: "total c \<noteq> 0 \<and> total c \<le> index s
        \<and> (\<forall>p\<in>set dups. \<exists>n. postNode p = Inr n
                                \<and> has (ids (postIds s)) (js_prop n ''id''))
        \<and> postNode post = Inr node
        \<and> \<not> has (ids (postIds s)) (js_prop node ''id'') \<longrightarrow>
        processPosts c (dups @ post # rest) s
          = (Done, (emit (map (\<lambda>p. LogDuplicate (post_id p)) dups) s)
                     \<lparr>postIds := snd (add (js_prop node ''id'') (postIds s)),
                      finished := True\<rparr>)"
    using processPosts_cap_break_after_duplicates [of c s dups post node rest] by blast
  from run stay brk show ?thesis by (intro conjI)
qed

theorem C2_cap_enforced_witness:
  "0 < total exampleConfig \<and> total exampleConfig \<noteq> 0
   \<and> goodFetch exampleConfig (\<lambda>sc. JNull)
   \<and> \<not> endsPagination exampleConfig
         (pageResponse [examplePost ''1'' ''a'', examplePost ''2'' ''b'', examplePost ''3'' ''c'']
            True)
   \<and> ids (postIds (snd (snd (generator exampleConfig (\<lambda>sc. JNull)
        [pageCycle [examplePost ''1'' ''a'', examplePost ''2'' ''b'', examplePost ''3'' ''c''] True]
        [True] init)))) = {str_id ''3'', str_id ''2'', str_id ''1''}
   \<and> fst (snd (generator exampleConfig (\<lambda>sc. JNull)
        [pageCycle [examplePost ''1'' ''a'', examplePost ''2'' ''b'', examplePost ''3'' ''c''] True]
        [True] init)) = Done
   \<and> finished (snd (snd (generator exampleConfig (\<lambda>sc. JNull)
        [pageCycle [examplePost ''1'' ''a'', examplePost ''2'' ''b'', examplePost ''3'' ''c''] True]
        [True] init)))
   \<and> total exampleConfig < int (card (ids (postIds (snd (snd (generator exampleConfig (\<lambda>sc. JNull)
        [pageCycle [examplePost ''1'' ''a'', examplePost ''2'' ''b'', examplePost ''3'' ''c''] True]
        [True] init))))))
   \<and> index (snd (snd (generator exampleConfig (\<lambda>sc. JNull)
        [pageCycle [examplePost ''1'' ''a'', examplePost ''2'' ''b'', examplePost ''3'' ''c''] True]
        [True] init))) = total exampleConfig
   \<and> int (length (fst (generator exampleConfig (\<lambda>sc. JNull)
        [pageCycle [examplePost ''1'' ''a'', examplePost ''2'' ''b'', examplePost ''3'' ''c''] True]
        [True] init))) = total exampleConfig
   \<and> \<not> endsPagination exampleConfig
         (pageResponse [examplePost ''1'' ''a'', examplePost ''2'' ''b''] True)
   \<and> ids (postIds (snd (snd (generator exampleConfig (\<lambda>sc. JNull)
        [pageCycle [examplePost ''1'' ''a'', examplePost ''2'' ''b''] True] [True] init))))
       = {str_id ''2'', str_id ''1''}
   \<and> int (card (ids (postIds (snd (snd (generator exampleConfig (\<lambda>sc. JNull)
        [pageCycle [examplePost ''1'' ''a'', examplePost ''2'' ''b''] True] [True] init))))))
       \<le> total exampleConfig
   \<and> \<not> finished (snd (snd (generator exampleConfig (\<lambda>sc. JNull)
        [pageCycle [examplePost ''1'' ''a'', examplePost ''2'' ''b''] True] [True] init)))
   \<and> fst (snd (generator exampleConfig (\<lambda>sc. JNull)
        [pageCycle [examplePost ''1'' ''a'', examplePost ''2'' ''b''] True] [True] init)) \<noteq> Done
   \<and> total exampleConfig \<le> index atCap
   \<and> postNode (examplePost ''3'' ''c'')
       = Inr (JObj [(''id'', JStr ''3''), (''shortcode'', JStr ''c'')])
   \<and> \<not> has (ids (postIds atCap))
          (js_prop (JObj [(''id'', JStr ''3''), (''shortcode'', JStr ''c'')]) ''id'')
   \<and> postNode (examplePost ''1'' ''z'')
       = Inr (JObj [(''id'', JStr ''1''), (''shortcode'', JStr ''z'')])
   \<and> has (ids (postIds atCap))
        (js_prop (JObj [(''id'', JStr ''1''), (''shortcode'', JStr ''z'')]) ''id'')
   \<and> processPosts exampleConfig
         ([examplePost ''1'' ''z''] @ examplePost ''3'' ''c'' # [examplePost ''4'' ''d'']) atCap
       = (Done, (emit (map (\<lambda>p. LogDuplicate (post_id p)) [examplePost ''1'' ''z'']) atCap)
                  \<lparr>postIds := snd (add (js_prop (JObj [(''id'', JStr ''3''),
                                                   (''shortcode'', JStr ''c'')]) ''id'')
                                    (postIds atCap)),
                   finished := True\<rparr>)
   \<and> trace (snd (processPosts exampleConfig
         ([examplePost ''1'' ''z''] @ examplePost ''3'' ''c'' # [examplePost ''4'' ''d'']) atCap))
       = trace atCap @ [LogDuplicate (str_id ''1'')]
   \<and> index (snd (processPosts exampleConfig [examplePost ''3'' ''c'', examplePost ''4'' ''d'']
                    atCap)) = index atCap"
proof -
  define G1 where "G1 = generator exampleConfig (\<lambda>sc. JNull)
        [pageCycle [examplePost ''1'' ''a'', examplePost ''2'' ''b'', examplePost ''3'' ''c''] True]
        [True] init"
  define G2 where "G2 = generator exampleConfig (\<lambda>sc. JNull)
        [pageCycle [examplePost ''1'' ''a'', examplePost ''2'' ''b''] True] [True] init"
  have t: "0 < total exampleConfig" "total exampleConfig \<noteq> 0" "total exampleConfig = 2"
    by (simp_all add: exampleConfig_def)
  have gf: "goodFetch exampleConfig (\<lambda>sc. JNull)" by (simp add: goodFetch_def exampleConfig_def)
  have ne1: "\<not> endsPagination exampleConfig
         (pageResponse [examplePost ''1'' ''a'', examplePost ''2'' ''b'', examplePost ''3'' ''c'']
            True)"
    and ne2: "\<not> endsPagination exampleConfig
         (pageResponse [examplePost ''1'' ''a'', examplePost ''2'' ''b''] True)"
    by (simp_all add: endsPagination_page)
  have d1: "\<forall>res\<in>set (delivered
        [pageCycle [examplePost ''1'' ''a'', examplePost ''2'' ''b'', examplePost ''3'' ''c''] True]).
        \<not> endsPagination exampleConfig res"
    and d2: "\<forall>res\<in>set (delivered [pageCycle [examplePost ''1'' ''a'', examplePost ''2'' ''b''] True]).
        \<not> endsPagination exampleConfig res"
    by (simp_all add: delivered_pageCycle endsPagination_page)
  note f1 = run_cap_exceeded_fields [of "\<lambda>sc. JNull", folded G1_def]
  note f2 = run_cap_exactly_met_fields [of "\<lambda>sc. JNull", folded G2_def]
  have p1: "\<forall>v\<in>ids (postIds (snd (snd G1))). is_primitive v"
    and p2: "\<forall>v\<in>ids (postIds (snd (snd G2))). is_primitive v"
    by (simp_all add: f1 f2 str_id_primitive)
  have c1: "total exampleConfig < int (card (ids (postIds (snd (snd G1)))))"
    and c2: "int (card (ids (postIds (snd (snd G2))))) \<le> total exampleConfig"
    by (simp_all add: f1 f2 t card_three_ids card_two_ids)
  have g1: "generator exampleConfig (\<lambda>sc. JNull)
        [pageCycle [examplePost ''1'' ''a'', examplePost ''2'' ''b'', examplePost ''3'' ''c''] True]
        [True] init = (fst G1, fst (snd G1), snd (snd G1))"
    and g2: "generator exampleConfig (\<lambda>sc. JNull)
        [pageCycle [examplePost ''1'' ''a'', examplePost ''2'' ''b''] True] [True] init
        = (fst G2, fst (snd G2), snd (snd G2))"
    by (simp_all add: G1_def G2_def)
  have cap: "total exampleConfig \<le> index atCap"
    by (simp add: atCap_def exampleConfig_def)
  have pn: "postNode (examplePost ''3'' ''c'')
       = Inr (JObj [(''id'', JStr ''3''), (''shortcode'', JStr ''c'')])"
    by (simp add: examplePost_def postNode_def)
  have nh: "\<not> has (ids (postIds atCap))
          (js_prop (JObj [(''id'', JStr ''3''), (''shortcode'', JStr ''c'')]) ''id'')"
    by (simp add: atCap_def has_def str_id_def)
  note w1 = C2_cap_enforced
      [where c = exampleConfig and fetch = "\<lambda>sc. JNull" and nav = "[True]"
         and cycles = "[pageCycle [examplePost ''1'' ''a'', examplePost ''2'' ''b'',
                                   examplePost ''3'' ''c''] True]"
         and out = "fst G1" and e = "fst (snd G1)" and s' = "snd (snd G1)"
         and s = atCap and posts = "[examplePost ''3'' ''c'', examplePost ''4'' ''d'']"
         and post = "examplePost ''3'' ''c''"
         and node = "JObj [(''id'', JStr ''3''), (''shortcode'', JStr ''c'')]"
         and rest = "[examplePost ''4'' ''d'']" and dups = "[examplePost ''1'' ''z'']"]
  note w2 = C2_cap_enforced
      [where c = exampleConfig and fetch = "\<lambda>sc. JNull" and nav = "[True]"
         and cycles = "[pageCycle [examplePost ''1'' ''a'', examplePost ''2'' ''b''] True]"
         and out = "fst G2" and e = "fst (snd G2)" and s' = "snd (snd G2)"]
  from w1 t(1) g1 have r1: "index (snd (snd G1)) \<le> total exampleConfig
     \<and> (total exampleConfig \<le> int (card (ids (postIds (snd (snd G1)))))
          \<longrightarrow> index (snd (snd G1)) = total exampleConfig)
     \<and> (fst (snd G1) = Done \<and> goodFetch exampleConfig (\<lambda>sc. JNull)
          \<longrightarrow> int (length (fst G1)) = index (snd (snd G1)) \<and> postBuffer (snd (snd G1)) = [])"
    by blast
  from r1 c1 have i1: "index (snd (snd G1)) = total exampleConfig" by simp
  from r1 f1(2) gf i1 have l1: "int (length (fst G1)) = total exampleConfig" by simp
  from w2 t(1) g2 d2 p2 c2 have r2: "\<not> finished (snd (snd G2)) \<and> fst (snd G2) \<noteq> Done"
    by blast
  have pd: "postNode (examplePost ''1'' ''z'')
       = Inr (JObj [(''id'', JStr ''1''), (''shortcode'', JStr ''z'')])"
    by (simp add: examplePost_def postNode_def)
  have hd: "has (ids (postIds atCap))
        (js_prop (JObj [(''id'', JStr ''1''), (''shortcode'', JStr ''z'')]) ''id'')"
    by (simp add: atCap_def has_def str_id_def)
  from pd hd have du: "\<forall>p\<in>set [examplePost ''1'' ''z'']. \<exists>n. postNode p = Inr n
                                \<and> has (ids (postIds atCap)) (js_prop n ''id'')"
    by simp
  from w1 t(2) cap du pn nh
  have b1: "processPosts exampleConfig
         ([examplePost ''1'' ''z''] @ examplePost ''3'' ''c'' # [examplePost ''4'' ''d'']) atCap
       = (Done, (emit (map (\<lambda>p. LogDuplicate (post_id p)) [examplePost ''1'' ''z'']) atCap)
                  \<lparr>postIds := snd (add (js_prop (JObj [(''id'', JStr ''3''),
                                                   (''shortcode'', JStr ''c'')]) ''id'')
                                    (postIds atCap)),
                   finished := True\<rparr>)"
    by blast
  from w1 t(2) cap
  have b2: "index (snd (processPosts exampleConfig
                [examplePost ''3'' ''c'', examplePost ''4'' ''d''] atCap)) = index atCap"
    by blast
  have b3: "trace (snd (processPosts exampleConfig
         ([examplePost ''1'' ''z''] @ examplePost ''3'' ''c'' # [examplePost ''4'' ''d'']) atCap))
       = trace atCap @ [LogDuplicate (str_id ''1'')]"
    unfolding b1 by (simp add: emit_def post_id_def pd str_id_def)
  from t(1,2) gf ne1 f1(5) f1(2) f1(3) c1 i1 l1 ne2 f2(5) c2 r2 cap pn nh pd hd b1 b3 b2
  show ?thesis unfolding G1_def G2_def by (intro conjI) simp_all
qed

text \<open>
  The claim as worded does not hold: a supply of exactly \<open>N\<close> unique records does not
  set \<open>finished\<close>. With the cap 2 and one page of two new posts that announces a
  next page, both posts are yielded, \<open>index\<close> is 2, and the session is not finished:
  the generator is still polling when the responses end.
\<close>

theorem C2_cap_met_not_finished:
  "total exampleConfig = 2
   \<and> (case generator exampleConfig (\<lambda>sc. JNull)
        [\<lparr>newRequests = [],
          newResponses = [pageResponse [examplePost ''1'' ''a'', examplePost ''2'' ''b''] True]\<rparr>]
        [True] init of
        (out, e, s') \<Rightarrow>
          length out = 2 \<and> card (ids (postIds s')) = 2 \<and> index s' = 2
          \<and> \<not> finished s' \<and> e = Pending)"
proof -
  have t: "total exampleConfig = 2" by (simp add: exampleConfig_def)
  have g: "case generator exampleConfig (\<lambda>sc. JNull)
        [\<lparr>newRequests = [],
          newResponses = [pageResponse [examplePost ''1'' ''a'', examplePost ''2'' ''b''] True]\<rparr>]
        [True] init of
        (out, e, s') \<Rightarrow>
          length out = 2 \<and> card (ids (postIds s')) = 2 \<and> index s' = 2
          \<and> \<not> finished s' \<and> e = Pending"
    unfolding run_cap_exactly_met by (simp add: init_def str_id_def)
  from t g show ?thesis by (rule conjI)
qed

section \<open>Every id is accepted once\<close>

lemma subseq_subset: "subseq xs ys \<Longrightarrow> set xs \<subseteq> set ys"
  by (induction rule: list_emb.induct) auto

lemma subseq_distinct: "subseq xs ys \<Longrightarrow> distinct ys \<Longrightarrow> distinct xs"
proof (induction rule: list_emb.induct)
  case (list_emb_Nil ys)
  then show ?case by simp
next
  case (list_emb_Cons xs ys y)
  then show ?case by simp
next
  case (list_emb_Cons2 x y xs ys)
  from list_emb_Cons2(2) have "set xs \<subseteq> set ys" by (rule subseq_subset)
  with list_emb_Cons2 show ?case by auto
qed

lemma shortcode_node: "postNode post = Inr node \<Longrightarrow> shortcode post = js_prop node ''shortcode''"
  by (simp add: shortcode_def)

lemma has_mono: "\<not> has (insert w S) v \<Longrightarrow> \<not> has S v"
  by (simp add: has_def)

lemma processPosts_ids_mono:
  "ids (postIds s) \<subseteq> ids (postIds (snd (processPosts c posts s)))"
proof (induction posts arbitrary: s)
  case Nil
  show ?case by simp
next
  case (Cons post posts)
  show ?case
  proof (cases "postNode post")
    case (Inl e)
    then show ?thesis by simp
  next
    case (Inr node)
    define v where "v = js_prop node ''id''"
    define s1 where "s1 = s\<lparr>postIds := snd (add v (postIds s))\<rparr>"
    have ids1: "ids (postIds s1) = insert v (ids (postIds s))" by (simp add: s1_def ids_add)
    have a: "ids (postIds s) \<subseteq> ids (postIds (snd (processPosts c posts (emit [LogDuplicate v] s1))))"
      using Cons.IH [of "emit [LogDuplicate v] s1"] by (auto simp: emit_def ids1)
    have b: "ids (postIds s) \<subseteq> ids (postIds (snd (processPosts c posts
                (s1\<lparr>index := index s1 + 1,
                     pagePromises := pagePromises s1 @ [js_prop node ''shortcode'']\<rparr>))))"
      using Cons.IH [of "s1\<lparr>index := index s1 + 1,
                     pagePromises := pagePromises s1 @ [js_prop node ''shortcode'']\<rparr>"]
      by (auto simp: ids1)
    have d: "ids (postIds s) \<subseteq> ids (postIds (snd (processPosts c posts
                (addToPostBuffer post (s1\<lparr>index := index s1 + 1\<rparr>)))))"
      using Cons.IH [of "addToPostBuffer post (s1\<lparr>index := index s1 + 1\<rparr>)"]
      by (auto simp: ids1 addToPostBuffer_def)
    have e: "ids (postIds s) \<subseteq> ids (postIds (s1\<lparr>finished := True\<rparr>))" by (auto simp: ids1)
    from Inr a b d e show ?thesis
      by (simp add: Let_def v_def [symmetric] s1_def [symmetric])
  qed
qed

text \<open>
  The posts one run of the loop accepts: a subsequence of the posts given, with pairwise
  distinct ids none of which the set held; each is buffered, or in full-detail mode
  queued for a visit, in that order, and counted.
\<close>

lemma processPosts_accepted:
  "\<exists>acc. subseq acc posts
        \<and> distinct (filter is_primitive (map post_id acc))
        \<and> (\<forall>p\<in>set acc. \<not> has (ids (postIds s)) (post_id p))
        \<and> post_id ` set acc \<subseteq> ids (postIds (snd (processPosts c posts s)))
        \<and> postBuffer (snd (processPosts c posts s))
            = postBuffer s @ (if fullAPI c then [] else acc)
        \<and> pagePromises (snd (processPosts c posts s))
            = pagePromises s @ (if fullAPI c then map shortcode acc else [])
        \<and> index (snd (processPosts c posts s)) = index s + int (length acc)"
proof (induction posts arbitrary: s)
  case Nil
  show ?case by (rule exI [of _ "[]"]) simp
next
  case (Cons post posts)
  show ?case
  proof (cases "postNode post")
    case (Inl e)
    show ?thesis by (rule exI [of _ "[]"]) (simp add: Inl)
  next
    case (Inr node)
    define v where "v = js_prop node ''id''"
    define s1 where "s1 = s\<lparr>postIds := snd (add v (postIds s))\<rparr>"
    have ids1: "ids (postIds s1) = insert v (ids (postIds s))" by (simp add: s1_def ids_add)
    have f1: "index s1 = index s" "postBuffer s1 = postBuffer s" "pagePromises s1 = pagePromises s"
      by (simp_all add: s1_def)
    have pid: "post_id post = v" by (simp add: post_id_node [OF Inr] v_def)
    show ?thesis
    proof (cases "fst (add v (postIds s))")
      case True
      define t where "t = emit [LogDuplicate v] s1"
      have ft: "ids (postIds t) = insert v (ids (postIds s))" "index t = index s"
        "postBuffer t = postBuffer s" "pagePromises t = pagePromises s"
        by (simp_all add: t_def emit_def ids1 f1)
      have r: "processPosts c (post # posts) s = processPosts c posts t"
        using Inr True by (simp add: Let_def v_def [symmetric] s1_def [symmetric] t_def)
      from Cons.IH [of t] obtain acc where a: "subseq acc posts"
        "distinct (filter is_primitive (map post_id acc))"
        "\<forall>p\<in>set acc. \<not> has (ids (postIds t)) (post_id p)"
        "post_id ` set acc \<subseteq> ids (postIds (snd (processPosts c posts t)))"
        "postBuffer (snd (processPosts c posts t)) = postBuffer t @ (if fullAPI c then [] else acc)"
        "pagePromises (snd (processPosts c posts t))
            = pagePromises t @ (if fullAPI c then map shortcode acc else [])"
        "index (snd (processPosts c posts t)) = index t + int (length acc)"
        by blast
      from a(3) have n: "\<forall>p\<in>set acc. \<not> has (ids (postIds s)) (post_id p)"
        using has_mono [of v "ids (postIds s)"] by (simp add: ft)
      from a(1) have s: "subseq acc (post # posts)" by (rule list_emb_Cons)
      from s a(2) n a(4) a(5) a(6) a(7) show ?thesis
        unfolding r ft by blast
    next
      case False
      then have nh: "\<not> has (ids (postIds s)) v" by (simp add: add_def)
      show ?thesis
      proof (cases "index s1 < total c \<or> total c = 0")
        case nocap: False
        have r: "processPosts c (post # posts) s = (Done, s1\<lparr>finished := True\<rparr>)"
          using Inr False nocap by (simp add: Let_def v_def [symmetric] s1_def [symmetric])
        show ?thesis unfolding r by (rule exI [of _ "[]"]) (simp add: f1)
      next
        case True
        define t where "t = (if fullAPI c
            then s1\<lparr>index := index s1 + 1,
                    pagePromises := pagePromises s1 @ [js_prop node ''shortcode'']\<rparr>
            else addToPostBuffer post (s1\<lparr>index := index s1 + 1\<rparr>))"
        have ft: "ids (postIds t) = insert v (ids (postIds s))" "index t = index s + 1"
          "postBuffer t = postBuffer s @ (if fullAPI c then [] else [post])"
          "pagePromises t = pagePromises s @ (if fullAPI c then [shortcode post] else [])"
          by (simp_all add: t_def addToPostBuffer_def ids1 f1 shortcode_node [OF Inr])
        have r: "processPosts c (post # posts) s = processPosts c posts t"
          using Inr False True
          by (simp add: Let_def v_def [symmetric] s1_def [symmetric] t_def)
        from Cons.IH [of t] obtain acc where a: "subseq acc posts"
          "distinct (filter is_primitive (map post_id acc))"
          "\<forall>p\<in>set acc. \<not> has (ids (postIds t)) (post_id p)"
          "post_id ` set acc \<subseteq> ids (postIds (snd (processPosts c posts t)))"
          "postBuffer (snd (processPosts c posts t)) = postBuffer t @ (if fullAPI c then [] else acc)"
          "pagePromises (snd (processPosts c posts t))
              = pagePromises t @ (if fullAPI c then map shortcode acc else [])"
          "index (snd (processPosts c posts t)) = index t + int (length acc)"
          by blast
        from a(3) have n: "\<forall>p\<in>set acc. \<not> has (ids (postIds s)) (post_id p)"
          using has_mono [of v "ids (postIds s)"] by (simp add: ft)
        from a(3) have nv: "is_primitive v \<Longrightarrow> v \<notin> post_id ` set acc"
          by (auto simp: ft has_def)
        from processPosts_ids_mono [of t c posts]
        have grow: "v \<in> ids (postIds (snd (processPosts c posts t)))" by (auto simp: ft)
        have d: "distinct (filter is_primitive (map post_id (post # acc)))"
          using a(2) nv by (auto simp: pid)
        have i: "post_id ` set (post # acc) \<subseteq> ids (postIds (snd (processPosts c posts t)))"
          using a(4) grow by (simp add: pid)
        have n2: "\<forall>p\<in>set (post # acc). \<not> has (ids (postIds s)) (post_id p)"
          using n nh by (simp add: pid)
        from a(1) have s: "subseq (post # acc) (post # posts)" by (rule subseq_Cons2)
        have pb: "postBuffer (snd (processPosts c posts t))
            = postBuffer s @ (if fullAPI c then [] else post # acc)"
          by (simp add: a(5) ft)
        have pp: "pagePromises (snd (processPosts c posts t))
            = pagePromises s @ (if fullAPI c then map shortcode (post # acc) else [])"
          by (simp add: a(6) ft)
        have ix: "index (snd (processPosts c posts t)) = index s + int (length (post # acc))"
          by (simp add: a(7) ft)
        from s d n2 i pb pp ix show ?thesis unfolding r by blast
      qed
    qed
  qed
qed

lemma recordOf_direct: "\<not> fullAPI c \<Longrightarrow> map (recordOf c fetch) xs = xs"
  by (induction xs) (simp_all add: recordOf_def)

lemma recordOf_full: "fullAPI c \<Longrightarrow> map (recordOf c fetch) xs = map fetch (map shortcode xs)"
  by (induction xs) (simp_all add: recordOf_def)

lemma processPosts_srcInv:
  assumes A: "set posts \<subseteq> A" and i: "srcInv c fetch A out s"
  shows "srcInv c fetch A out (snd (processPosts c posts s))"
proof -
  from i have m: "fullAPI c \<or> pagePromises s = []" by (simp add: srcInv_def)
  from i obtain acc0 where b: "set acc0 \<subseteq> A" "distinct (filter is_primitive (map post_id acc0))"
    "post_id ` set acc0 \<subseteq> ids (postIds s)" "int (length acc0) = index s"
    "subseq (out @ postBuffer s @ map fetch (pagePromises s)) (map (recordOf c fetch) acc0)"
    by (auto simp: srcInv_def)
  define s' where "s' = snd (processPosts c posts s)"
  from processPosts_accepted [of posts s c] obtain acc where a: "subseq acc posts"
    "distinct (filter is_primitive (map post_id acc))"
    "\<forall>p\<in>set acc. \<not> has (ids (postIds s)) (post_id p)"
    "post_id ` set acc \<subseteq> ids (postIds s')"
    "postBuffer s' = postBuffer s @ (if fullAPI c then [] else acc)"
    "pagePromises s' = pagePromises s @ (if fullAPI c then map shortcode acc else [])"
    "index s' = index s + int (length acc)"
    unfolding s'_def by blast
  note mono = processPosts_ids_mono [of s c posts, folded s'_def]
  from subseq_subset [OF a(1)] A have sa: "set (acc0 @ acc) \<subseteq> A" using b(1) by auto
  have dis: "distinct (filter is_primitive (map post_id (acc0 @ acc)))"
  proof -
    have "\<forall>p\<in>set acc. \<forall>q\<in>set acc0. is_primitive (post_id p) \<longrightarrow> post_id q \<noteq> post_id p"
    proof (intro ballI impI notI)
      fix p q assume p: "p \<in> set acc" and q: "q \<in> set acc0" and pr: "is_primitive (post_id p)"
        and eq: "post_id q = post_id p"
      from q b(3) eq have "post_id p \<in> ids (postIds s)" by auto
      with pr have "has (ids (postIds s)) (post_id p)" by (simp add: has_def)
      with a(3) p show False by simp
    qed
    with b(2) a(2) show ?thesis by fastforce
  qed
  have im: "post_id ` set (acc0 @ acc) \<subseteq> ids (postIds s')"
    using b(3) mono a(4) by auto
  have len: "int (length (acc0 @ acc)) = index s'" using b(4) a(7) by simp
  have m': "fullAPI c \<or> pagePromises s' = []" using m a(6) by auto
  define L where "L = out @ postBuffer s @ map fetch (pagePromises s)"
  define X where "X = map (recordOf c fetch) acc"
  have e: "out @ postBuffer s' @ map fetch (pagePromises s') = L @ X"
  proof (cases "fullAPI c")
    case True
    then show ?thesis by (simp add: a(5) a(6) recordOf_def L_def X_def)
  next
    case False
    with m have "pagePromises s = []" by simp
    with False show ?thesis by (simp add: a(5) a(6) recordOf_direct L_def X_def)
  qed
  from b(5) have "subseq (L @ X) (map (recordOf c fetch) acc0 @ X)"
    by (simp only: subseq_append L_def)
  then have sub: "subseq (out @ postBuffer s' @ map fetch (pagePromises s'))
               (map (recordOf c fetch) (acc0 @ acc))"
    by (simp only: e map_append X_def)
  from m' sa dis im len sub show ?thesis
    unfolding srcInv_def s'_def [symmetric] by blast
qed

lemma keeps_control_srcInv: "keeps_control (srcInv c fetch A out)"
  by (simp add: keeps_control_def srcInv_def)

lemma await_srcInv: "srcInv c fetch A out s \<Longrightarrow> srcInv c fetch A out (awaitPagePromises fetch s)"
  by (simp add: srcInv_def awaitPagePromises_def)

lemma yieldPosts_srcInv:
  assumes "srcInv c fetch A out s"
  shows "srcInv c fetch A (out @ fst (yieldPosts s)) (snd (yieldPosts s))"
proof -
  from yieldPosts_split [of s] obtain dropped
    where d: "postBuffer s = fst (yieldPosts s) @ dropped @ postBuffer (snd (yieldPosts s))"
    by blast
  have f: "pagePromises (snd (yieldPosts s)) = pagePromises s"
    "postIds (snd (yieldPosts s)) = postIds s" "index (snd (yieldPosts s)) = index s"
    by (rule yieldPosts_frame, simp)+
  from assms obtain acc where a: "set acc \<subseteq> A" "distinct (filter is_primitive (map post_id acc))"
    "post_id ` set acc \<subseteq> ids (postIds s)" "int (length acc) = index s"
    "subseq (out @ postBuffer s @ map fetch (pagePromises s)) (map (recordOf c fetch) acc)"
    and m: "fullAPI c \<or> pagePromises s = []"
    by (auto simp: srcInv_def)
  define rest where "rest = postBuffer (snd (yieldPosts s)) @ map fetch (pagePromises s)"
  have "subseq rest (dropped @ rest)" by (rule subseq_drop_many) simp
  then have "subseq ((out @ fst (yieldPosts s)) @ rest) ((out @ fst (yieldPosts s)) @ dropped @ rest)"
    by (simp only: subseq_append')
  moreover have "(out @ fst (yieldPosts s)) @ dropped @ rest
      = out @ postBuffer s @ map fetch (pagePromises s)"
    by (subst d) (simp add: rest_def)
  ultimately have "subseq ((out @ fst (yieldPosts s)) @ rest)
      (out @ postBuffer s @ map fetch (pagePromises s))" by simp
  from subseq_order.trans [OF this a(5)]
  have s: "subseq ((out @ fst (yieldPosts s)) @ postBuffer (snd (yieldPosts s))
              @ map fetch (pagePromises (snd (yieldPosts s)))) (map (recordOf c fetch) acc)"
    by (simp add: rest_def f)
  from m a(1-4) s show ?thesis unfolding srcInv_def f by blast
qed

lemma offered_posts:
  "\<forall>cy\<in>set cycles. \<forall>res\<in>set (newResponses cy).
      matchURL (res_url res) \<longrightarrow> set (postsOf c res) \<subseteq> set (offered c cycles)"
  by (auto simp: offered_def delivered_def)

lemma generator_srcInv:
  "srcInv c fetch (set (offered c cycles)) (fst (generator c fetch cycles nav init))
     (snd (snd (generator c fetch cycles nav init)))"
proof (rule generator_tracked
    [where I = "srcInv c fetch (set (offered c cycles))"
       and R = "\<lambda>res. set (postsOf c res) \<subseteq> set (offered c cycles)"])
  show "\<And>out. keeps_control (srcInv c fetch (set (offered c cycles)) out)"
    by (rule keeps_control_srcInv)
  show "\<And>out res s. set (postsOf c res) \<subseteq> set (offered c cycles) \<Longrightarrow> matchURL (res_url res)
          \<Longrightarrow> srcInv c fetch (set (offered c cycles)) out s
          \<Longrightarrow> srcInv c fetch (set (offered c cycles)) out (snd (processResponse c res s))"
  proof -
    fix out res s
    assume A: "set (postsOf c res) \<subseteq> set (offered c cycles)"
      and i: "srcInv c fetch (set (offered c cycles)) out s"
    show "srcInv c fetch (set (offered c cycles)) out (snd (processResponse c res s))"
    proof (rule processResponse_tracked [OF keeps_control_srcInv])
      show "\<And>s. endsPagination c res \<Longrightarrow> srcInv c fetch (set (offered c cycles)) out s
              \<Longrightarrow> srcInv c fetch (set (offered c cycles)) out (s\<lparr>finished := True\<rparr>)"
        by (simp add: srcInv_def)
      show "\<And>s. srcInv c fetch (set (offered c cycles)) out s
              \<Longrightarrow> srcInv c fetch (set (offered c cycles)) out
                    (snd (processPosts c (postsOf c res) s))"
        by (rule processPosts_srcInv [OF A])
      show "srcInv c fetch (set (offered c cycles)) out s" by (rule i)
    qed
  qed
  show "\<And>out s. srcInv c fetch (set (offered c cycles)) out s
          \<Longrightarrow> srcInv c fetch (set (offered c cycles)) out (awaitPagePromises fetch s)"
    by (rule await_srcInv)
  show "\<And>out s. srcInv c fetch (set (offered c cycles)) out s
          \<Longrightarrow> srcInv c fetch (set (offered c cycles)) (out @ fst (yieldPosts s))
                (snd (yieldPosts s))"
    by (rule yieldPosts_srcInv)
  show "\<forall>cy\<in>set cycles. \<forall>res\<in>set (newResponses cy).
      matchURL (res_url res) \<longrightarrow> set (postsOf c res) \<subseteq> set (offered c cycles)"
    by (rule offered_posts)
  show "buffered (\<lambda>res. set (postsOf c res) \<subseteq> set (offered c cycles)) init"
    by (rule buffered_init)
  show "srcInv c fetch (set (offered c cycles)) [] init"
    unfolding srcInv_def by (rule conjI, simp add: init_def, rule exI [of _ "[]"], simp add: init_def)
qed

lemma subseq_ids_distinct:
  assumes "subseq out acc" and "distinct (filter is_primitive (map post_id acc))"
  shows "distinct (filter is_primitive (map post_id out))"
  using subseq_distinct [OF subseq_filter [OF subseq_map [OF assms(1)]] assms(2)] .

section \<open>Dedup\<close>

lemma subseq_front: "subseq (xs @ ys) zs \<Longrightarrow> subseq xs zs"
proof -
  assume a: "subseq (xs @ ys) zs"
  have "subseq xs xs" by simp
  then have "subseq xs (xs @ ys)" by (rule subseq_rev_drop_many)
  from subseq_order.trans [OF this a] show ?thesis .
qed

lemma generator_accepted:
  "\<exists>acc. set acc \<subseteq> set (offered c cycles)
      \<and> distinct (filter is_primitive (map post_id acc))
      \<and> post_id ` set acc \<subseteq> ids (postIds (snd (snd (generator c fetch cycles nav init))))
      \<and> int (length acc) = index (snd (snd (generator c fetch cycles nav init)))
      \<and> subseq (fst (generator c fetch cycles nav init)
                 @ postBuffer (snd (snd (generator c fetch cycles nav init)))
                 @ map fetch (pagePromises (snd (snd (generator c fetch cycles nav init)))))
               (map (recordOf c fetch) acc)"
  using generator_srcInv [of c fetch cycles nav] unfolding srcInv_def by blast

lemma generator_distinct_ids:
  assumes "\<not> fullAPI c"
  shows "distinct (filter is_primitive (map post_id (fst (generator c fetch cycles nav init))))"
proof -
  from generator_accepted [of c cycles fetch nav] obtain acc
    where d: "distinct (filter is_primitive (map post_id acc))"
      and s: "subseq (fst (generator c fetch cycles nav init)
                 @ postBuffer (snd (snd (generator c fetch cycles nav init)))
                 @ map fetch (pagePromises (snd (snd (generator c fetch cycles nav init)))))
               (map (recordOf c fetch) acc)"
    by blast
  from s assms have "subseq (fst (generator c fetch cycles nav init)
                 @ postBuffer (snd (snd (generator c fetch cycles nav init)))
                 @ map fetch (pagePromises (snd (snd (generator c fetch cycles nav init))))) acc"
    by (simp add: recordOf_direct)
  then have "subseq (fst (generator c fetch cycles nav init)) acc"
    by (rule subseq_front)
  from subseq_ids_distinct [OF this d] show ?thesis .
qed

lemma seenOne_facts:
  "postNode (examplePost ''1'' ''z'') = Inr (JObj [(''id'', JStr ''1''), (''shortcode'', JStr ''z'')])"
  "js_prop (JObj [(''id'', JStr ''1''), (''shortcode'', JStr ''z'')]) ''id'' = str_id ''1''"
  "has (ids (postIds seenOne)) (str_id ''1'')"
  "postBuffer (snd (processPosts exampleConfig [examplePost ''1'' ''z'', examplePost ''2'' ''b'']
                      seenOne)) = [examplePost ''1'' ''a'', examplePost ''2'' ''b'']"
  "trace (snd (processPosts exampleConfig [examplePost ''1'' ''z'', examplePost ''2'' ''b'']
                      seenOne)) = trace seenOne @ [LogDuplicate (str_id ''1'')]"
  by (simp_all add: seenOne_def startState_def init_def exampleConfig_def examplePost_def
      postNode_def add_def has_def Let_def addToPostBuffer_def emit_def str_id_def)

text \<open>
  C1. In every run of the generator on a fresh session, whatever the responses and
  however the run ends, there are posts \<open>acc\<close>, all of them offered by delivered
  responses with a matching URL, with pairwise distinct ids, all in the id set, and as
  many as \<open>index\<close> counts, such that the records yielded, followed by those still
  buffered and those of the page visits still pending, are in this order records of
  posts of \<open>acc\<close>: every record comes from its own accepted post, and no two accepted
  posts share an id. Outside full-detail mode the record of a post is the post, so the
  ids of the posts yielded are pairwise distinct; in full-detail mode the record is the
  payload of the visit to the post's page, and at most one visit is queued per id. Each
  run of the loop over the posts of a response accepts a subsequence of them, with
  pairwise distinct ids none of which was in the set, and buffers them (or queues their
  visits) in order. A post whose id is in the set is only logged: the loop goes on with
  the set, the buffer, the pending visits and \<open>index\<close> as they were. Ids are compared
  as a JavaScript \<^verbatim>\<open>Set\<close> compares them: by value for strings, the declared type of
  \<^verbatim>\<open>add\<close>; an array or object as id is never found in the set.
\<close>

theorem C1_no_id_yielded_twice:
  "(\<exists>acc. set acc \<subseteq> set (offered c cycles)
      \<and> distinct (filter is_primitive (map post_id acc))
      \<and> post_id ` set acc \<subseteq> ids (postIds (snd (snd (generator c fetch cycles nav init))))
      \<and> int (length acc) = index (snd (snd (generator c fetch cycles nav init)))
      \<and> subseq (fst (generator c fetch cycles nav init)
                 @ postBuffer (snd (snd (generator c fetch cycles nav init)))
                 @ map fetch (pagePromises (snd (snd (generator c fetch cycles nav init)))))
               (map (recordOf c fetch) acc))
   \<and> (\<not> fullAPI c \<longrightarrow>
        distinct (filter is_primitive (map post_id (fst (generator c fetch cycles nav init)))))
   \<and> (\<exists>acc. subseq acc posts
        \<and> distinct (filter is_primitive (map post_id acc))
        \<and> (\<forall>p\<in>set acc. \<not> has (ids (postIds s)) (post_id p))
        \<and> post_id ` set acc \<subseteq> ids (postIds (snd (processPosts c posts s)))
        \<and> postBuffer (snd (processPosts c posts s))
            = postBuffer s @ (if fullAPI c then [] else acc)
        \<and> pagePromises (snd (processPosts c posts s))
            = pagePromises s @ (if fullAPI c then map shortcode acc else [])
        \<and> index (snd (processPosts c posts s)) = index s + int (length acc))
   \<and> (postNode post = Inr node \<and> has (ids (postIds s)) (js_prop node ''id'') \<longrightarrow>
        processPosts c (post # posts) s
          = processPosts c posts (emit [LogDuplicate (js_prop node ''id'')] s))"
proof -
  note a = generator_accepted [of c cycles fetch nav]
  have b: "\<not> fullAPI c \<longrightarrow>
        distinct (filter is_primitive (map post_id (fst (generator c fetch cycles nav init))))"
    using generator_distinct_ids [of c fetch cycles nav] by blast
  note d = processPosts_accepted [of posts s c]
  have e: "postNode post = Inr node \<and> has (ids (postIds s)) (js_prop node ''id'') \<longrightarrow>
        processPosts c (post # posts) s
          = processPosts c posts (emit [LogDuplicate (js_prop node ''id'')] s)"
    using processPosts_skip_duplicate [of post node s c posts] by blast
  from a b d e show ?thesis by (intro conjI)
qed

theorem C1_no_id_yielded_twice_witness:
  "\<not> fullAPI exampleConfig
   \<and> distinct (filter is_primitive (map post_id (fst (generator exampleConfig (\<lambda>sc. JNull)
        [pageCycle [examplePost ''1'' ''a'', examplePost ''1'' ''z'', examplePost ''2'' ''b''] False]
        [True] init))))
   \<and> fst (generator exampleConfig (\<lambda>sc. JNull)
        [pageCycle [examplePost ''1'' ''a'', examplePost ''1'' ''z'', examplePost ''2'' ''b''] False]
        [True] init)
       = [examplePost ''1'' ''a'', examplePost ''2'' ''b'']
   \<and> postNode (examplePost ''1'' ''z'')
       = Inr (JObj [(''id'', JStr ''1''), (''shortcode'', JStr ''z'')])
   \<and> has (ids (postIds seenOne))
         (js_prop (JObj [(''id'', JStr ''1''), (''shortcode'', JStr ''z'')]) ''id'')
   \<and> processPosts exampleConfig [examplePost ''1'' ''z'', examplePost ''2'' ''b''] seenOne
       = processPosts exampleConfig [examplePost ''2'' ''b'']
           (emit [LogDuplicate (js_prop (JObj [(''id'', JStr ''1''), (''shortcode'', JStr ''z'')])
                                  ''id'')] seenOne)
   \<and> postBuffer (snd (processPosts exampleConfig
                        [examplePost ''1'' ''z'', examplePost ''2'' ''b''] seenOne))
       = [examplePost ''1'' ''a'', examplePost ''2'' ''b'']"
proof -
  have n: "\<not> fullAPI exampleConfig" by (simp add: exampleConfig_def)
  note t = C1_no_id_yielded_twice
      [where c = exampleConfig and fetch = "\<lambda>sc. JNull" and nav = "[True]"
         and cycles = "[pageCycle [examplePost ''1'' ''a'', examplePost ''1'' ''z'',
                                   examplePost ''2'' ''b''] False]"
         and post = "examplePost ''1'' ''z''"
         and node = "JObj [(''id'', JStr ''1''), (''shortcode'', JStr ''z'')]"
         and s = seenOne and posts = "[examplePost ''2'' ''b'']"]
  from t n have d: "distinct (filter is_primitive (map post_id (fst (generator exampleConfig
        (\<lambda>sc. JNull)
        [pageCycle [examplePost ''1'' ''a'', examplePost ''1'' ''z'', examplePost ''2'' ''b''] False]
        [True] init))))"
    by blast
  have r: "fst (generator exampleConfig (\<lambda>sc. JNull)
        [pageCycle [examplePost ''1'' ''a'', examplePost ''1'' ''z'', examplePost ''2'' ''b''] False]
        [True] init)
       = [examplePost ''1'' ''a'', examplePost ''2'' ''b'']"
    unfolding pageCycle_def by (rule run_duplicate_last_page(1))
  note pn = seenOne_facts(1)
  have h: "has (ids (postIds seenOne))
         (js_prop (JObj [(''id'', JStr ''1''), (''shortcode'', JStr ''z'')]) ''id'')"
    by (simp only: seenOne_facts(2,3))
  from t pn h
  have sk: "processPosts exampleConfig [examplePost ''1'' ''z'', examplePost ''2'' ''b''] seenOne
       = processPosts exampleConfig [examplePost ''2'' ''b'']
           (emit [LogDuplicate (js_prop (JObj [(''id'', JStr ''1''), (''shortcode'', JStr ''z'')])
                                  ''id'')] seenOne)"
    by blast
  note pb = seenOne_facts(4)
  from n d r pn h sk pb show ?thesis by (intro conjI)
qed

section \<open>The yield loop and the last page\<close>











section \<open>The last page\<close>






section \<open>The post buffer across stop and graft\<close>









end
